theory Spec2Isabelle
  imports Main
begin

section \<open>JavaScript values and strings\<close>

text \<open>
  The member-resolution code (\<^verbatim>\<open>parseMemberSpecs\<close> to \<^verbatim>\<open>resolveMembers\<close>, which
  follow the type declarations in \<^verbatim>\<open>src/types.d.ts\<close> and are imported elsewhere as
  \<^verbatim>\<open>helper/SimpleASSet\<close>) works on JavaScript strings and on the loosely typed values
  that the YAML and JSON parsers hand to it. A JavaScript
  string is a sequence of UTF-16 code units; here it is a \<^typ>\<open>string\<close>, one \<^typ>\<open>char\<close>
  per code unit, which covers the code units below 256. A number \<open>JNum n\<close> is the
  JavaScript number with the integer value \<open>n\<close>: the depths and AS numbers the program
  handles are integers. Fractions, \<^verbatim>\<open>NaN\<close> and the infinities are outside this model.

  An object is written as the list of the property definitions that built it, in the
  order in which they were made; for a parsed document this is the order in which the
  keys are written. A key defined again keeps its place and takes the later value.
\<close>

datatype jsval =
    JUndefined
  | JNull
  | JBool bool
  | JNum int
  | JStr string
  | JArr "jsval list"
  | JObj "(string \<times> jsval) list"

text \<open>
  Property read \<^verbatim>\<open>obj[k]\<close>: the value of the last definition of \<open>k\<close>, and
  \<^verbatim>\<open>undefined\<close> when the object has no such property.
\<close>

definition getprop :: "(string \<times> jsval) list \<Rightarrow> string \<Rightarrow> jsval" where
  "getprop obj k = (case map_of (rev obj) k of None \<Rightarrow> JUndefined | Some v \<Rightarrow> v)"

text \<open>
  Adding to a \<^verbatim>\<open>Set\<close>, like defining a property on an object, leaves an element
  that is already present where it is and puts a new one at the end:
  \<open>set_add_all xs seen\<close> adds the elements of \<open>xs\<close> one by one to the sequence \<open>seen\<close>.
\<close>

fun set_add_all :: "string list \<Rightarrow> string list \<Rightarrow> string list" where
  "set_add_all [] seen = seen"
| "set_add_all (x # xs) seen =
     (if x \<in> set seen then set_add_all xs seen else set_add_all xs (seen @ [x]))"

text \<open>
  \<^verbatim>\<open>Object.keys\<close> and \<^verbatim>\<open>Object.entries\<close> do not enumerate the own properties of
  an object in the order of their creation: the keys that are array indices come first,
  in ascending numeric order, and the other string keys follow in the order of their
  creation. A key is an array index when it is the decimal rendering, without a sign and
  without leading zeros, of an integer from 0 to 4294967294.
\<close>

definition isDigit :: "char \<Rightarrow> bool" where
  "isDigit c = (let n = (of_char c :: nat) in 48 \<le> n \<and> n \<le> 57)"

definition index_value :: "string \<Rightarrow> nat" where
  "index_value s = foldl (\<lambda>n c. 10 * n + (of_char c - 48)) 0 s"

definition isArrayIndex :: "string \<Rightarrow> bool" where
  "isArrayIndex s =
     (s \<noteq> [] \<and> list_all isDigit s \<and> (s = ''0'' \<or> hd s \<noteq> CHR ''0'') \<and>
      index_value s < 4294967295)"

definition Object_keys :: "(string \<times> jsval) list \<Rightarrow> string list" where
  "Object_keys obj =
     (let own = set_add_all (map fst obj) []
      in sort_key index_value (filter isArrayIndex own) @
         filter (\<lambda>k. \<not> isArrayIndex k) own)"

definition Object_entries :: "(string \<times> jsval) list \<Rightarrow> (string \<times> jsval) list" where
  "Object_entries obj = map (\<lambda>k. (k, getprop obj k)) (Object_keys obj)"

text \<open>
  \<^verbatim>\<open>String.prototype.trim\<close> removes white space and line terminators from both ends.
  Below code unit 256 these are TAB, LF, VT, FF, CR, SPACE and NO-BREAK SPACE.
\<close>

definition isWhiteSpace :: "char \<Rightarrow> bool" where
  "isWhiteSpace c =
     (let n = (of_char c :: nat)
      in n = 9 \<or> n = 10 \<or> n = 11 \<or> n = 12 \<or> n = 13 \<or> n = 32 \<or> n = 160)"

definition trimStart :: "string \<Rightarrow> string" where
  "trimStart s = dropWhile isWhiteSpace s"

definition trimEnd :: "string \<Rightarrow> string" where
  "trimEnd s = rev (dropWhile isWhiteSpace (rev s))"

definition trim :: "string \<Rightarrow> string" where
  "trim s = trimEnd (trimStart s)"

text \<open>
  \<^verbatim>\<open>String(n)\<close> for an integer \<open>n\<close>: its decimal rendering. JavaScript renders a
  number this way when its magnitude is below \<^verbatim>\<open>1e21\<close>, which holds for every depth
  and AS number.
\<close>

definition digit_char :: "nat \<Rightarrow> char" where
  "digit_char d = ''0123456789'' ! d"

fun digits :: "nat \<Rightarrow> string" where
  "digits n = (if n < 10 then [digit_char n] else digits (n div 10) @ [digit_char (n mod 10)])"

declare digits.simps [simp del]

definition String_num :: "int \<Rightarrow> string" where
  "String_num i = (if i < 0 then CHR ''-'' # digits (nat (- i)) else digits (nat i))"

text \<open>
  The guards \<^verbatim>\<open>typeof v === "boolean" ? v : d\<close>, \<^verbatim>\<open>typeof v === "number" ? v : d\<close>
  and \<^verbatim>\<open>typeof v === "string" ? v.trim() : d\<close> of the parser; \<open>None\<close> is
  \<^verbatim>\<open>undefined\<close>.
\<close>

fun boolean_or :: "jsval \<Rightarrow> bool option \<Rightarrow> bool option" where
  "boolean_or (JBool b) d = Some b"
| "boolean_or v d = d"

fun number_or :: "jsval \<Rightarrow> int option \<Rightarrow> int option" where
  "number_or (JNum n) d = Some n"
| "number_or v d = d"

fun trimmed_string_or :: "jsval \<Rightarrow> string option \<Rightarrow> string option" where
  "trimmed_string_or (JStr s) d = Some (trim s)"
| "trimmed_string_or v d = d"


section \<open>Member specifications and their parser\<close>

text \<open>
  \<^verbatim>\<open>type MemberSpec = { name: string; flat?: boolean; depth?: number; sources?: string }\<close>.
  An optional field that is absent or \<^verbatim>\<open>undefined\<close> is \<open>None\<close>.
\<close>

record MemberSpec =
  name :: string
  flat :: "bool option"
  depth :: "int option"
  sources :: "string option"

definition reservedKeys :: "string list" where
  "reservedKeys = [''flat'', ''depth'', ''source'']"

text \<open>
  The inner loop of \<^verbatim>\<open>parseMemberSpecs\<close>,
  \<^verbatim>\<open>for (const [rawName, cfg] of Object.entries(record))\<close>, with the shared defaults
  \<open>commonFlat\<close>, \<open>commonDepth\<close>, \<open>commonSources\<close> and the output array \<open>out\<close> it pushes to.
\<close>

fun entries_loop ::
  "bool option \<Rightarrow> int option \<Rightarrow> string option \<Rightarrow> (string \<times> jsval) list \<Rightarrow>
   MemberSpec list \<Rightarrow> MemberSpec list" where
  "entries_loop commonFlat commonDepth commonSources [] out = out"
| "entries_loop commonFlat commonDepth commonSources ((rawName, cfg) # rest) out =
     (if rawName \<in> set reservedKeys
      then entries_loop commonFlat commonDepth commonSources rest out
      else
        let nm = trim rawName in
        if nm = [] then entries_loop commonFlat commonDepth commonSources rest out
        else
          (case cfg of
             JObj nested \<Rightarrow>
               entries_loop commonFlat commonDepth commonSources rest
                 (out @ [\<lparr>name = nm,
                          flat = boolean_or (getprop nested ''flat'') commonFlat,
                          depth = number_or (getprop nested ''depth'') commonDepth,
                          sources = trimmed_string_or (getprop nested ''source'') commonSources\<rparr>])
           | _ \<Rightarrow>
               entries_loop commonFlat commonDepth commonSources rest
                 (out @ [\<lparr>name = nm, flat = commonFlat, depth = commonDepth,
                          sources = commonSources\<rparr>])))"

text \<open>The outer loop \<^verbatim>\<open>for (const item of value)\<close>.\<close>

fun items_loop :: "jsval list \<Rightarrow> MemberSpec list \<Rightarrow> MemberSpec list" where
  "items_loop [] out = out"
| "items_loop (item # rest) out =
     (case item of
        JStr s \<Rightarrow>
          (let nm = trim s
           in if nm \<noteq> []
              then items_loop rest
                     (out @ [\<lparr>name = nm, flat = None, depth = None, sources = None\<rparr>])
              else items_loop rest out)
      | JObj record \<Rightarrow>
          items_loop rest
            (entries_loop
               (boolean_or (getprop record ''flat'') None)
               (number_or (getprop record ''depth'') None)
               (trimmed_string_or (getprop record ''source'') None)
               (Object_entries record) out)
      | _ \<Rightarrow> items_loop rest out)"

definition parseMemberSpecs :: "jsval \<Rightarrow> MemberSpec list" where
  "parseMemberSpecs v = (case v of JArr items \<Rightarrow> items_loop items [] | _ \<Rightarrow> [])"


section \<open>The bgpq4 adapter\<close>

definition DEFAULT_BGPQ4_HOST :: string where
  "DEFAULT_BGPQ4_HOST = ''whois.radb.net''"

text \<open>The character class \<^verbatim>\<open>[A-Za-z0-9_]\<close>, by code-unit ranges.\<close>

definition isWordChar :: "char \<Rightarrow> bool" where
  "isWordChar c =
     (let n = (of_char c :: nat)
      in (65 \<le> n \<and> n \<le> 90) \<or> (97 \<le> n \<and> n \<le> 122) \<or> (48 \<le> n \<and> n \<le> 57) \<or> n = 95)"

text \<open>
  \<^verbatim>\<open>name.replace(/[^A-Za-z0-9_]/g, "_")\<close>, then
  \<^verbatim>\<open>sanitized.length > 64 ? sanitized.slice(0, 64) : sanitized\<close>.
\<close>

definition sanitizeListName :: "string \<Rightarrow> string" where
  "sanitizeListName nm =
     (let sanitized = map (\<lambda>c. if isWordChar c then c else CHR ''_'') nm
      in if length sanitized > 64 then take 64 sanitized else sanitized)"

text \<open>
  The argument vector that \<^verbatim>\<open>queryBgpq4ExpandedASNs\<close> builds before it starts the
  process. \<^verbatim>\<open>sourcesArg && sourcesArg.trim().length > 0\<close> needs a string that is
  non-empty and has non-empty trimmed content.
\<close>

definition queryBgpq4ExpandedASNs_args :: "MemberSpec \<Rightarrow> string option \<Rightarrow> string list" where
  "queryBgpq4ExpandedASNs_args spec sourcesArg =
     (let listName = sanitizeListName (name spec);
          args0 = [''-j'', ''-t'', ''-h'', DEFAULT_BGPQ4_HOST, ''-l'', listName];
          args1 = (case sourcesArg of
                     Some s \<Rightarrow>
                       if s \<noteq> [] \<and> length (trim s) > 0 then args0 @ [''-S'', trim s]
                       else args0
                   | None \<Rightarrow> args0);
          args2 = (case depth spec of
                     Some d \<Rightarrow> if d \<ge> 0 then args1 @ [''-L'', String_num d] else args1
                   | None \<Rightarrow> args1)
      in args2 @ [name spec])"

text \<open>
  \<^verbatim>\<open>cacheKey\<close>: the name, the depth rendered by \<^verbatim>\<open>String\<close> (empty when the depth
  is not a number) and \<^verbatim>\<open>sourcesArg?.trim() ?? ""\<close>, joined by vertical bars.
\<close>

definition cacheKey :: "MemberSpec \<Rightarrow> string option \<Rightarrow> string" where
  "cacheKey spec sourcesArg =
     (let depthPart = (case depth spec of Some d \<Rightarrow> String_num d | None \<Rightarrow> []);
          sourcesPart = (case sourcesArg of Some s \<Rightarrow> trim s | None \<Rightarrow> [])
      in name spec @ ''|'' @ depthPart @ ''|'' @ sourcesPart)"


text \<open>
  The errors the resolver can raise. In the source all three are plain \<^verbatim>\<open>Error\<close>
  objects told apart by their message; the constructor records the throw site and carries
  the message text.
\<close>

datatype error =
    ExpansionFailure string
  | MalformedOutput string
  | EmptyExpansionError string

text \<open>
  How one run of the external process ends, as \<^verbatim>\<open>queryBgpq4ExpandedASNs\<close> sees it:
  \<^verbatim>\<open>execFileAsync\<close> rejects (non-zero exit or timeout) with a message, or it resolves
  with a standard output which \<^verbatim>\<open>JSON.parse\<close> either refuses or turns into a value.
\<close>

datatype exec_outcome =
    ExecFailed string
  | StdoutNonJSON string
  | StdoutJSON jsval

text \<open>
  The bucket selected from the parsed object: the array under the list label, else the
  array under the first key (\<^verbatim>\<open>Object.keys(obj)[0] ?? ""\<close>), else the empty array.
\<close>

definition bucket_of :: "(string \<times> jsval) list \<Rightarrow> string \<Rightarrow> jsval list" where
  "bucket_of obj listName =
     (case getprop obj listName of
        JArr xs \<Rightarrow> xs
      | _ \<Rightarrow>
          (case getprop obj (case Object_keys obj of [] \<Rightarrow> [] | k # ks \<Rightarrow> k) of
             JArr ys \<Rightarrow> ys
           | _ \<Rightarrow> []))"

definition expanded_asns :: "jsval list \<Rightarrow> string list" where
  "expanded_asns bucket =
     map (\<lambda>s. ''AS'' @ s)
       (filter (\<lambda>s. length s > 0)
          (map trim
             (map (\<lambda>v. case v of JNum n \<Rightarrow> String_num n | _ \<Rightarrow> []) bucket)))"

text \<open>
  The part of \<^verbatim>\<open>queryBgpq4ExpandedASNs\<close> that runs after the process has ended.
\<close>

definition queryBgpq4ExpandedASNs_result :: "MemberSpec \<Rightarrow> exec_outcome \<Rightarrow> error + string list" where
  "queryBgpq4ExpandedASNs_result spec outcome =
     (case outcome of
        ExecFailed msg \<Rightarrow> Inl (ExpansionFailure msg)
      | StdoutNonJSON stdout \<Rightarrow>
          Inl (MalformedOutput (''bgpq4 returned non-JSON output: '' @ take 200 stdout))
      | StdoutJSON parsed \<Rightarrow>
          (case parsed of
             JObj obj \<Rightarrow> Inr (expanded_asns (bucket_of obj (sanitizeListName (name spec))))
           | _ \<Rightarrow> Inl (MalformedOutput ''bgpq4 JSON output is not an object'')))"


section \<open>The request cache\<close>

text \<open>
  \<^verbatim>\<open>FLATTEN_CACHE\<close> maps a key to a promise. A promise is a shared object that the
  cache and every caller holding it see settle, so promises live in a store and the cache
  holds handles into it. Every promise of the store was created by one call of
  \<^verbatim>\<open>queryBgpq4ExpandedASNs\<close>, which starts one bgpq4 process; the record keeps the
  arguments of that call, which the process and the \<^verbatim>\<open>.catch\<close> handler close over.
  The handles below \<open>invocations\<close> are allocated, in the order of their creation, so
  \<open>invocations\<close> is the number of processes started so far.
\<close>

datatype promise_state =
    Pending
  | Fulfilled "string list"
  | Rejected error

record promise =
  p_spec :: MemberSpec
  p_timeoutMs :: int
  p_sourcesArg :: "string option"
  p_state :: promise_state

record cache_state =
  FLATTEN_CACHE :: "string \<rightharpoonup> nat"
  promises :: "nat \<Rightarrow> promise"
  invocations :: nat

definition initial_state :: cache_state where
  "initial_state =
     \<lparr>FLATTEN_CACHE = Map.empty,
      promises = (\<lambda>h. \<lparr>p_spec = \<lparr>name = [], flat = None, depth = None, sources = None\<rparr>,
                       p_timeoutMs = 0, p_sourcesArg = None, p_state = Pending\<rparr>),
      invocations = 0\<rparr>"

text \<open>
  The synchronous body of \<^verbatim>\<open>queryBgpq4ExpandedASNsCached\<close>: it returns the cached
  promise, or starts the adapter, stores the new promise under the key and returns it.
\<close>

definition queryBgpq4ExpandedASNsCached ::
  "MemberSpec \<Rightarrow> int \<Rightarrow> string option \<Rightarrow> cache_state \<Rightarrow> nat \<times> cache_state" where
  "queryBgpq4ExpandedASNsCached spec timeout sourcesArg st =
     (let key = cacheKey spec sourcesArg
      in case FLATTEN_CACHE st key of
           Some cached \<Rightarrow> (cached, st)
         | None \<Rightarrow>
             (let h = invocations st;
                  st1 = st\<lparr>promises := (promises st)
                              (h := \<lparr>p_spec = spec, p_timeoutMs = timeout,
                                     p_sourcesArg = sourcesArg, p_state = Pending\<rparr>),
                            invocations := Suc (invocations st)\<rparr>
              in (h, st1\<lparr>FLATTEN_CACHE := (FLATTEN_CACHE st1)(key \<mapsto> h)\<rparr>)))"

text \<open>The key that the \<^verbatim>\<open>.catch\<close> handler of a promise closed over.\<close>

definition promise_key :: "promise \<Rightarrow> string" where
  "promise_key p = cacheKey (p_spec p) (p_sourcesArg p)"

text \<open>
  The process behind promise \<open>h\<close> ends with \<open>outcome\<close>. The rest of the adapter runs; if
  it throws, the \<^verbatim>\<open>.catch\<close> handler first deletes the key it closed over and then
  rethrows, which rejects the promise the callers hold. Only a process that was started
  and has not ended yet can end.
\<close>

definition settle :: "nat \<Rightarrow> exec_outcome \<Rightarrow> cache_state \<Rightarrow> cache_state" where
  "settle h outcome st =
     (let p = promises st h
      in if h < invocations st \<and> p_state p = Pending
         then (case queryBgpq4ExpandedASNs_result (p_spec p) outcome of
                 Inl err \<Rightarrow>
                   (let st1 = st\<lparr>FLATTEN_CACHE := (FLATTEN_CACHE st)(promise_key p := None)\<rparr>
                    in st1\<lparr>promises := (promises st1)(h := p\<lparr>p_state := Rejected err\<rparr>)\<rparr>)
               | Inr asns \<Rightarrow>
                   st\<lparr>promises := (promises st)(h := p\<lparr>p_state := Fulfilled asns\<rparr>)\<rparr>)
         else st)"

text \<open>
  A history of the process-wide cache is a sequence of events: a task calls the cached
  query, or a running process ends. Tasks interleave only at their \<^verbatim>\<open>await\<close>s, so
  each event is atomic.
\<close>

datatype event =
    Query MemberSpec int "string option"
  | Complete nat exec_outcome

fun step :: "cache_state \<Rightarrow> event \<Rightarrow> cache_state" where
  "step st (Query spec timeout sourcesArg) =
     snd (queryBgpq4ExpandedASNsCached spec timeout sourcesArg st)"
| "step st (Complete h outcome) = settle h outcome st"

definition run :: "cache_state \<Rightarrow> event list \<Rightarrow> cache_state" where
  "run st evs = foldl step st evs"

text \<open>
  \<^verbatim>\<open>await\<close> of a promise by a task that runs alone: a settled promise gives its value
  or error at once; a pending one gives it when its process has ended. The environment
  \<open>w\<close> tells how the process behind a handle ends, from its argument vector and timeout.
\<close>

type_synonym world = "nat \<Rightarrow> string list \<Rightarrow> int \<Rightarrow> exec_outcome"

definition await :: "world \<Rightarrow> nat \<Rightarrow> cache_state \<Rightarrow> (error + string list) \<times> cache_state" where
  "await w h st =
     (let p = promises st h
      in case p_state p of
           Fulfilled asns \<Rightarrow> (Inr asns, st)
         | Rejected err \<Rightarrow> (Inl err, st)
         | Pending \<Rightarrow>
             (let outcome = w h (queryBgpq4ExpandedASNs_args (p_spec p) (p_sourcesArg p)) (p_timeoutMs p)
              in (queryBgpq4ExpandedASNs_result (p_spec p) outcome, settle h outcome st)))"

text \<open>\<^verbatim>\<open>await queryBgpq4ExpandedASNsCached(spec, timeoutMs, sourcesArg)\<close>.\<close>

definition awaitCached ::
  "world \<Rightarrow> MemberSpec \<Rightarrow> int \<Rightarrow> string option \<Rightarrow> cache_state \<Rightarrow>
   (error + string list) \<times> cache_state" where
  "awaitCached w spec timeout sourcesArg st =
     (case queryBgpq4ExpandedASNsCached spec timeout sourcesArg st of
        (h, st1) \<Rightarrow> await w h st1)"


section \<open>The member resolver\<close>

datatype on_empty = OnEmpty_keep | OnEmpty_empty | OnEmpty_error

record FlattenOptions =
  timeoutMs :: "int option"
  onEmpty :: "on_empty option"

text \<open>
  \<^verbatim>\<open>flattenMemberWithBgpq4\<close> and \<^verbatim>\<open>resolveMembers\<close> reach the cache only through
  \<^verbatim>\<open>await queryBgpq4ExpandedASNsCached(...)\<close>. They take that operation as the
  parameter \<open>query\<close>, a state transformer that returns the awaited outcome; the program's
  own resolver is the instance with \<^const>\<open>awaitCached\<close>.
\<close>

type_synonym 's cached_query =
  "MemberSpec \<Rightarrow> int \<Rightarrow> string option \<Rightarrow> 's \<Rightarrow> (error + string list) \<times> 's"

text \<open>JavaScript truthiness of \<^verbatim>\<open>sources?: string\<close>: a non-empty string.\<close>

definition truthy :: "string option \<Rightarrow> bool" where
  "truthy s = (case s of None \<Rightarrow> False | Some x \<Rightarrow> x \<noteq> [])"

definition flattenMemberWithBgpq4 ::
  "'s cached_query \<Rightarrow> MemberSpec \<Rightarrow> FlattenOptions \<Rightarrow> string option \<Rightarrow> 's \<Rightarrow>
   (error + string list) \<times> 's" where
  "flattenMemberWithBgpq4 query spec options srcs st =
     (if flat spec \<noteq> Some True then (Inr [name spec], st)
      else
        let timeout = (case timeoutMs options of Some t \<Rightarrow> t | None \<Rightarrow> 20000)
        in case query spec timeout srcs st of
             (Inl err, st1) \<Rightarrow> (Inl err, st1)
           | (Inr asnsWithSources, st1) \<Rightarrow>
               if length asnsWithSources > 0 then (Inr asnsWithSources, st1)
               else
                 (case (if truthy srcs then query spec timeout None st1 else (Inr [], st1)) of
                    (Inl err, st2) \<Rightarrow> (Inl err, st2)
                  | (Inr asnsFallback, st2) \<Rightarrow>
                      if length asnsFallback > 0 then (Inr asnsFallback, st2)
                      else
                        (case (case onEmpty options of Some pol \<Rightarrow> pol | None \<Rightarrow> OnEmpty_keep) of
                           OnEmpty_empty \<Rightarrow> (Inr [], st2)
                         | OnEmpty_error \<Rightarrow>
                             (Inl (EmptyExpansionError
                                     (''bgpq4 returned empty expansion for '' @ name spec)), st2)
                         | OnEmpty_keep \<Rightarrow> (Inr [name spec], st2))))"

text \<open>
  \<^verbatim>\<open>Array.from(new Set(out))\<close>: the elements of \<open>out\<close> in the order of their first
  occurrence.
\<close>

definition Array_from_Set :: "string list \<Rightarrow> string list" where
  "Array_from_Set out = set_add_all out []"

text \<open>
  The loop of \<^verbatim>\<open>resolveMembers\<close> with its accumulator \<open>out\<close>; a flatten that throws
  ends the loop. \<^verbatim>\<open>spec.sources ?? sources\<close> takes the default only when the spec has
  no sources.
\<close>

fun resolve_loop ::
  "'s cached_query \<Rightarrow> FlattenOptions \<Rightarrow> string option \<Rightarrow> MemberSpec list \<Rightarrow>
   string list \<Rightarrow> 's \<Rightarrow> (error + string list) \<times> 's" where
  "resolve_loop query options srcs [] out st = (Inr out, st)"
| "resolve_loop query options srcs (spec # rest) out st =
     (case flattenMemberWithBgpq4 query spec options
             (case sources spec of Some s \<Rightarrow> Some s | None \<Rightarrow> srcs) st of
        (Inl err, st1) \<Rightarrow> (Inl err, st1)
      | (Inr resolved, st1) \<Rightarrow> resolve_loop query options srcs rest (out @ resolved) st1)"

definition resolveMembers ::
  "'s cached_query \<Rightarrow> MemberSpec list \<Rightarrow> FlattenOptions \<Rightarrow> string option \<Rightarrow> 's \<Rightarrow>
   (error + string list) \<times> 's" where
  "resolveMembers query specs options srcs st =
     (case resolve_loop query options srcs specs [] st of
        (Inl err, st1) \<Rightarrow> (Inl err, st1)
      | (Inr out, st1) \<Rightarrow> (Inr (Array_from_Set out), st1))"



section \<open>Notions used to state the properties\<close>

subsection \<open>The parser, as the specification describes it\<close>

text \<open>
  The parser is described per input element: a plain string names one member; a mapping
  names one member per key that is not one of the reserved keys \<open>flat\<close>, \<open>depth\<close>,
  \<open>source\<close> and whose trimmed text is not empty. A field of a member is the one
  explicitly present (with the right type) on its own configuration object, else the
  shared default explicitly present on the mapping, else absent.
\<close>

definition named_entries :: "(string \<times> jsval) list \<Rightarrow> (string \<times> jsval) list" where
  "named_entries record =
     filter (\<lambda>e. fst e \<notin> set [''flat'', ''depth'', ''source''] \<and> trim (fst e) \<noteq> []) record"

definition explicit_flat :: "jsval \<Rightarrow> bool option" where
  "explicit_flat cfg =
     (case cfg of
        JObj props \<Rightarrow> (case getprop props ''flat'' of JBool b \<Rightarrow> Some b | _ \<Rightarrow> None)
      | _ \<Rightarrow> None)"

definition explicit_depth :: "jsval \<Rightarrow> int option" where
  "explicit_depth cfg =
     (case cfg of
        JObj props \<Rightarrow> (case getprop props ''depth'' of JNum n \<Rightarrow> Some n | _ \<Rightarrow> None)
      | _ \<Rightarrow> None)"

definition explicit_source :: "jsval \<Rightarrow> string option" where
  "explicit_source cfg =
     (case cfg of
        JObj props \<Rightarrow> (case getprop props ''source'' of JStr s \<Rightarrow> Some (trim s) | _ \<Rightarrow> None)
      | _ \<Rightarrow> None)"

definition override :: "'a option \<Rightarrow> 'a option \<Rightarrow> 'a option" where
  "override own shared = (case own of Some v \<Rightarrow> Some v | None \<Rightarrow> shared)"

definition spec_of_entry :: "(string \<times> jsval) list \<Rightarrow> string \<times> jsval \<Rightarrow> MemberSpec" where
  "spec_of_entry record =
     (\<lambda>e. \<lparr>name = trim (fst e),
           flat = override (explicit_flat (snd e)) (explicit_flat (JObj record)),
           depth = override (explicit_depth (snd e)) (explicit_depth (JObj record)),
           sources = override (explicit_source (snd e)) (explicit_source (JObj record))\<rparr>)"

definition specs_of_item :: "jsval \<Rightarrow> MemberSpec list" where
  "specs_of_item item =
     (case item of
        JStr s \<Rightarrow> if trim s = [] then []
                  else [\<lparr>name = trim s, flat = None, depth = None, sources = None\<rparr>]
      | JObj record \<Rightarrow> map (spec_of_entry record) (named_entries (Object_entries record))
      | _ \<Rightarrow> [])"

text \<open>
  The specification's wording, ``one MemberSpec per named entry in input order'', takes
  the named entries of a mapping in the order in which the mapping is written.
\<close>

definition specs_in_input_order :: "jsval \<Rightarrow> MemberSpec list" where
  "specs_in_input_order item =
     (case item of
        JStr s \<Rightarrow> if trim s = [] then []
                  else [\<lparr>name = trim s, flat = None, depth = None, sources = None\<rparr>]
      | JObj record \<Rightarrow> map (spec_of_entry record) (named_entries record)
      | _ \<Rightarrow> [])"

subsection \<open>Histories of the cache\<close>

text \<open>The states the process-wide cache can be in: those some history leads to.\<close>

inductive reachable :: "cache_state \<Rightarrow> bool" where
  reachable_initial: "reachable initial_state"
| reachable_step: "reachable st \<Longrightarrow> reachable (step st ev)"

text \<open>
  The invariant of the cache: a cached handle is allocated, was created for the key it is
  stored under and is not rejected; and a pending promise is the one cached under its key.
\<close>

definition cache_inv :: "cache_state \<Rightarrow> bool" where
  "cache_inv st =
     ((\<forall>k h. FLATTEN_CACHE st k = Some h \<longrightarrow>
          h < invocations st \<and> promise_key (promises st h) = k \<and>
          (\<forall>err. p_state (promises st h) \<noteq> Rejected err))
    \<and> (\<forall>h. h < invocations st \<and> p_state (promises st h) = Pending \<longrightarrow>
          FLATTEN_CACHE st (promise_key (promises st h)) = Some h))"

text \<open>The event is the failure of the process behind promise \<open>h\<close>, created for \<open>spec\<close>.\<close>

fun fails_promise :: "nat \<Rightarrow> MemberSpec \<Rightarrow> event \<Rightarrow> bool" where
  "fails_promise h spec (Complete h' outcome) = (h' = h \<and> isl (queryBgpq4ExpandedASNs_result spec outcome))"
| "fails_promise h spec (Query s t a) = False"


text \<open>
  The number of adapter invocations made so far for a key: the promises of the store that
  were created for it.
\<close>

definition started_for :: "string \<Rightarrow> cache_state \<Rightarrow> nat" where
  "started_for k st =
     length (filter (\<lambda>h. promise_key (promises st h) = k) [0..<invocations st])"


subsection \<open>The resolver, as the specification describes it\<close>

text \<open>
  \<^verbatim>\<open>options.timeoutMs ?? 20_000\<close>, the outcome of the \<^verbatim>\<open>onEmpty\<close> policy for a
  member that expanded to nothing, and what flatten makes of the outcome of its retry.
\<close>

definition timeout_of :: "FlattenOptions \<Rightarrow> int" where
  "timeout_of options = (case timeoutMs options of Some t \<Rightarrow> t | None \<Rightarrow> 20000)"

definition empty_policy :: "MemberSpec \<Rightarrow> FlattenOptions \<Rightarrow> error + string list" where
  "empty_policy spec options =
     (case onEmpty options of
        None \<Rightarrow> Inr [name spec]
      | Some OnEmpty_keep \<Rightarrow> Inr [name spec]
      | Some OnEmpty_empty \<Rightarrow> Inr []
      | Some OnEmpty_error \<Rightarrow>
          Inl (EmptyExpansionError (''bgpq4 returned empty expansion for '' @ name spec)))"

definition after_retry ::
  "MemberSpec \<Rightarrow> FlattenOptions \<Rightarrow> (error + string list) \<times> 's \<Rightarrow> (error + string list) \<times> 's" where
  "after_retry spec options r =
     (case r of
        (Inl err, st2) \<Rightarrow> (Inl err, st2)
      | (Inr asnsFallback, st2) \<Rightarrow>
          if asnsFallback \<noteq> [] then (Inr asnsFallback, st2) else (empty_policy spec options, st2))"

text \<open>\<^verbatim>\<open>spec.sources ?? sources\<close>: the sources a specification is flattened with.\<close>

definition effective_sources :: "MemberSpec \<Rightarrow> string option \<Rightarrow> string option" where
  "effective_sources spec srcs = (case sources spec of Some s \<Rightarrow> Some s | None \<Rightarrow> srcs)"

text \<open>
  The outcomes of flatten for each specification of a list, taken one after the other in
  input order, each with its own sources, in the state the one before left.
\<close>

fun flatten_each ::
  "'s cached_query \<Rightarrow> FlattenOptions \<Rightarrow> string option \<Rightarrow> MemberSpec list \<Rightarrow> 's \<Rightarrow>
   (error + string list) list \<times> 's" where
  "flatten_each query options srcs [] st = ([], st)"
| "flatten_each query options srcs (spec # rest) st =
     (case flattenMemberWithBgpq4 query spec options (effective_sources spec srcs) st of
        (r, st1) \<Rightarrow>
          (case flatten_each query options srcs rest st1 of (rs, st2) \<Rightarrow> (r # rs, st2)))"



section \<open>Properties of the parser\<close>

lemma boolean_or_override: "boolean_or v d = override (case v of JBool b \<Rightarrow> Some b | _ \<Rightarrow> None) d"
  by (cases v) (simp_all add: override_def)

lemma number_or_override: "number_or v d = override (case v of JNum n \<Rightarrow> Some n | _ \<Rightarrow> None) d"
  by (cases v) (simp_all add: override_def)

lemma trimmed_string_or_override:
  "trimmed_string_or v d = override (case v of JStr s \<Rightarrow> Some (trim s) | _ \<Rightarrow> None) d"
  by (cases v) (simp_all add: override_def)

lemma override_None: "override None d = d" "override x None = x"
  by (simp_all add: override_def split: option.splits)

lemma entries_loop_step:
  "entries_loop cf cd cs (e # rest) out =
     entries_loop cf cd cs rest
       (out @ (if fst e \<notin> set [''flat'', ''depth'', ''source''] \<and> trim (fst e) \<noteq> []
               then [\<lparr>name = trim (fst e),
                      flat = override (explicit_flat (snd e)) cf,
                      depth = override (explicit_depth (snd e)) cd,
                      sources = override (explicit_source (snd e)) cs\<rparr>]
               else []))"
proof (cases e)
  case (Pair rawName cfg)
  show ?thesis
  proof (cases cfg)
    case (JObj nested)
    with Pair show ?thesis
      by (simp add: reservedKeys_def Let_def explicit_flat_def explicit_depth_def
          explicit_source_def boolean_or_override number_or_override trimmed_string_or_override)
  qed (use Pair in \<open>simp_all add: reservedKeys_def Let_def explicit_flat_def explicit_depth_def
          explicit_source_def override_None\<close>)
qed

lemma entries_loop_eq:
  "entries_loop cf cd cs es out =
     out @ map (\<lambda>e. \<lparr>name = trim (fst e),
                      flat = override (explicit_flat (snd e)) cf,
                      depth = override (explicit_depth (snd e)) cd,
                      sources = override (explicit_source (snd e)) cs\<rparr>)
             (named_entries es)"
proof (induction es arbitrary: out)
  case Nil
  show ?case by (simp add: named_entries_def)
next
  case (Cons e es)
  show ?case
    unfolding entries_loop_step Cons.IH
    by (simp add: named_entries_def)
qed

lemma items_loop_step:
  "items_loop (item # rest) out = items_loop rest (out @ specs_of_item item)"
proof (cases item)
  case (JObj rcd)
  have "boolean_or (getprop rcd ''flat'') None = explicit_flat (JObj rcd)"
       "number_or (getprop rcd ''depth'') None = explicit_depth (JObj rcd)"
       "trimmed_string_or (getprop rcd ''source'') None = explicit_source (JObj rcd)"
    by (simp_all add: boolean_or_override number_or_override trimmed_string_or_override
        override_None explicit_flat_def explicit_depth_def explicit_source_def)
  with JObj show ?thesis
    by (simp add: specs_of_item_def entries_loop_eq spec_of_entry_def)
qed (simp_all add: specs_of_item_def Let_def)

lemma items_loop_eq: "items_loop items out = out @ concat (map specs_of_item items)"
proof (induction items arbitrary: out)
  case Nil
  show ?case by simp
next
  case (Cons item items)
  show ?case
    unfolding items_loop_step Cons.IH by simp
qed

text \<open>
  A mapping none of whose keys is an array index, and which defines no key twice, is
  enumerated as it is written.
\<close>

lemma set_add_all_distinct: "distinct (seen @ xs) \<Longrightarrow> set_add_all xs seen = seen @ xs"
proof (induction xs arbitrary: seen)
  case Nil
  show ?case by simp
next
  case (Cons x xs)
  from Cons.prems have "x \<notin> set seen" and "distinct ((seen @ [x]) @ xs)"
    by simp_all
  with Cons.IH [of "seen @ [x]"] show ?case
    by simp
qed

lemma Object_keys_plain:
  assumes "distinct (map fst obj)" and "\<forall>k \<in> set (map fst obj). \<not> isArrayIndex k"
  shows "Object_keys obj = map fst obj"
proof -
  from assms(1) have own: "set_add_all (map fst obj) [] = map fst obj"
    using set_add_all_distinct [of "[]" "map fst obj"] by simp
  from assms(2) have "filter isArrayIndex (map fst obj) = []"
    and "filter (\<lambda>k. \<not> isArrayIndex k) (map fst obj) = map fst obj"
    by (simp_all add: filter_empty_conv)
  with own show ?thesis
    by (simp add: Object_keys_def)
qed

lemma getprop_distinct:
  assumes "distinct (map fst obj)" and "e \<in> set obj"
  shows "getprop obj (fst e) = snd e"
proof -
  from assms(1) have "distinct (map fst (rev obj))"
    by (simp add: rev_map [symmetric])
  moreover from assms(2) have "(fst e, snd e) \<in> set (rev obj)"
    by simp
  ultimately have "map_of (rev obj) (fst e) = Some (snd e)"
    by (rule map_of_is_SomeI)
  then show ?thesis
    by (simp add: getprop_def)
qed

lemma Object_entries_plain:
  assumes "distinct (map fst obj)" and "\<forall>k \<in> set (map fst obj). \<not> isArrayIndex k"
  shows "Object_entries obj = obj"
proof -
  have "Object_entries obj = map (\<lambda>e. (fst e, getprop obj (fst e))) obj"
    by (simp add: Object_entries_def Object_keys_plain [OF assms] comp_def)
  also have "\<dots> = map (\<lambda>e. e) obj"
    by (rule map_cong [OF refl]) (simp add: getprop_distinct [OF assms(1)])
  finally show ?thesis
    by simp
qed

text \<open>
  Claim C8, as the specification states it, does not hold: the parser does not keep the
  entries of a mapping in input order. The mapping written with the keys \<open>AS-B\<close>,
  \<open>65000\<close>, \<open>AS-A\<close>, \<open>7\<close> yields the members \<open>7\<close>, \<open>65000\<close>, \<open>AS-B\<close>, \<open>AS-A\<close>, because
  \<^verbatim>\<open>Object.entries\<close> enumerates the keys that are array indices first.
\<close>

theorem parseMemberSpecs_not_input_order:
  "map name
     (parseMemberSpecs
        (JArr [JStr ''AS-FIRST'',
               JObj [(''AS-B'', JNull), (''65000'', JNull), (''AS-A'', JNull), (''7'', JNull)]]))
     = [''AS-FIRST'', ''7'', ''65000'', ''AS-B'', ''AS-A'']
   \<and> map name
       (concat (map specs_in_input_order
          [JStr ''AS-FIRST'',
           JObj [(''AS-B'', JNull), (''65000'', JNull), (''AS-A'', JNull), (''7'', JNull)]]))
     = [''AS-FIRST'', ''AS-B'', ''65000'', ''AS-A'', ''7'']
   \<and> parseMemberSpecs
       (JArr [JStr ''AS-FIRST'',
              JObj [(''AS-B'', JNull), (''65000'', JNull), (''AS-A'', JNull), (''7'', JNull)]])
     \<noteq> concat (map specs_in_input_order
          [JStr ''AS-FIRST'',
           JObj [(''AS-B'', JNull), (''65000'', JNull), (''AS-A'', JNull), (''7'', JNull)]])"
  by (simp add: parseMemberSpecs_def reservedKeys_def specs_in_input_order_def
      named_entries_def spec_of_entry_def Object_entries_def Object_keys_def
      isArrayIndex_def isDigit_def index_value_def getprop_def
      trim_def trimEnd_def trimStart_def isWhiteSpace_def)

text \<open>
  Claim C8, amended. For every input list, \<^const>\<open>parseMemberSpecs\<close> yields the
  specifications of its elements, the elements in input order: one per plain string and
  one per named entry of a mapping. The entries of one mapping come in the order in which
  \<^verbatim>\<open>Object.entries\<close> enumerates them: the keys that are array indices first, in
  ascending numeric order, then the other keys in the order in which they are written;
  this is the input order whenever no key of the mapping is an array index. A field of the
  member's own configuration overrides the shared default exactly where that field is
  explicitly present with its type; the keys \<open>flat\<close>, \<open>depth\<close>, \<open>source\<close> of a mapping
  name no member (the test is on the key as it is written, before trimming); empty and
  whitespace-only names are dropped, and so is every element that is neither a string nor
  a mapping. The parser is a total function to lists: it never raises. In particular the
  input \<^verbatim>\<open>["AS-A", {"AS-B": {flat: true, depth: 2}}]\<close> yields the two specifications
  \<^verbatim>\<open>{name: "AS-A"}\<close> and \<^verbatim>\<open>{name: "AS-B", flat: true, depth: 2}\<close>.
\<close>

theorem parseMemberSpecs_refines:
  "parseMemberSpecs (JArr items) = concat (map specs_of_item items)
   \<and> (distinct (map fst rcd) \<and> (\<forall>k \<in> set (map fst rcd). \<not> isArrayIndex k)
        \<longrightarrow> specs_of_item (JObj rcd) = specs_in_input_order (JObj rcd))
   \<and> parseMemberSpecs
       (JArr [JStr ''AS-A'', JObj [(''AS-B'', JObj [(''flat'', JBool True), (''depth'', JNum 2)])]])
     = [\<lparr>name = ''AS-A'', flat = None, depth = None, sources = None\<rparr>,
        \<lparr>name = ''AS-B'', flat = Some True, depth = Some 2, sources = None\<rparr>]"
proof (intro conjI impI)
  show "parseMemberSpecs (JArr items) = concat (map specs_of_item items)"
    by (simp add: parseMemberSpecs_def items_loop_eq)
  show "specs_of_item (JObj rcd) = specs_in_input_order (JObj rcd)"
    if "distinct (map fst rcd) \<and> (\<forall>k \<in> set (map fst rcd). \<not> isArrayIndex k)"
    using that by (simp add: specs_of_item_def specs_in_input_order_def Object_entries_plain)
  show "parseMemberSpecs
       (JArr [JStr ''AS-A'', JObj [(''AS-B'', JObj [(''flat'', JBool True), (''depth'', JNum 2)])]])
     = [\<lparr>name = ''AS-A'', flat = None, depth = None, sources = None\<rparr>,
        \<lparr>name = ''AS-B'', flat = Some True, depth = Some 2, sources = None\<rparr>]"
    by (simp add: parseMemberSpecs_def reservedKeys_def getprop_def
        Object_entries_def Object_keys_def isArrayIndex_def isDigit_def index_value_def
        trim_def trimEnd_def trimStart_def isWhiteSpace_def)
qed

theorem parseMemberSpecs_refines_witness:
  "parseMemberSpecs
     (JArr [JStr '' AS-A '', JStr ''  '', JNum 7,
            JObj [(''flat'', JBool True), (''source'', JStr '' RADB ''), ('' '', JNull),
                  (''AS-B'', JNull),
                  (''AS-C'', JObj [(''flat'', JBool False), (''depth'', JNum 2), (''source'', JNum 3)]),
                  (''64512'', JNull)]])
   = [\<lparr>name = ''AS-A'', flat = None, depth = None, sources = None\<rparr>,
      \<lparr>name = ''64512'', flat = Some True, depth = None, sources = Some ''RADB''\<rparr>,
      \<lparr>name = ''AS-B'', flat = Some True, depth = None, sources = Some ''RADB''\<rparr>,
      \<lparr>name = ''AS-C'', flat = Some False, depth = Some 2, sources = Some ''RADB''\<rparr>]
   \<and> distinct (map fst [(''AS-B'', JNull), (''AS-A'', JObj [(''depth'', JNum 1)])])
   \<and> \<not> isArrayIndex ''AS-B'' \<and> \<not> isArrayIndex ''AS-A''
   \<and> specs_of_item (JObj [(''AS-B'', JNull), (''AS-A'', JObj [(''depth'', JNum 1)])])
     = specs_in_input_order (JObj [(''AS-B'', JNull), (''AS-A'', JObj [(''depth'', JNum 1)])])"
  using parseMemberSpecs_refines [of "[JStr '' AS-A '', JStr ''  '', JNum 7,
            JObj [(''flat'', JBool True), (''source'', JStr '' RADB ''), ('' '', JNull),
                  (''AS-B'', JNull),
                  (''AS-C'', JObj [(''flat'', JBool False), (''depth'', JNum 2), (''source'', JNum 3)]),
                  (''64512'', JNull)]]"
            "[(''AS-B'', JNull), (''AS-A'', JObj [(''depth'', JNum 1)])]"]
  by (simp add: specs_of_item_def named_entries_def spec_of_entry_def override_def
      explicit_flat_def explicit_depth_def explicit_source_def getprop_def
      Object_entries_def Object_keys_def isArrayIndex_def isDigit_def index_value_def
      specs_in_input_order_def
      trim_def trimEnd_def trimStart_def isWhiteSpace_def)



section \<open>Properties of the adapter's invocation\<close>

lemma trim_Nil: "trim [] = []"
  by (simp add: trim_def trimEnd_def trimStart_def)

lemma isWordChar_underscore: "isWordChar (CHR ''_'')"
  by (simp add: isWordChar_def)

lemma sanitizeListName_eq:
  "sanitizeListName nm = take 64 (map (\<lambda>c. if isWordChar c then c else CHR ''_'') nm)"
  by (simp add: sanitizeListName_def Let_def)

text \<open>
  Claim C9. The argument vector of the adapter is \<^verbatim>\<open>-j -t -h <host> -l <label>\<close>,
  then \<^verbatim>\<open>-S <trimmed sources>\<close> exactly when a source string with non-empty trimmed
  content is supplied, then \<^verbatim>\<open>-L <depth>\<close> exactly when the depth is a number that
  is at least 0, then the member name. The label is the member name with every character
  outside \<^verbatim>\<open>[A-Za-z0-9_]\<close> replaced by an underscore, cut to at most 64 characters.
\<close>

theorem bgpq4_args_shape:
  "queryBgpq4ExpandedASNs_args spec sourcesArg =
     [''-j'', ''-t'', ''-h'', DEFAULT_BGPQ4_HOST, ''-l'', sanitizeListName (name spec)]
     @ (case sourcesArg of
          Some s \<Rightarrow> if trim s \<noteq> [] then [''-S'', trim s] else []
        | None \<Rightarrow> [])
     @ (case depth spec of
          Some d \<Rightarrow> if 0 \<le> d then [''-L'', String_num d] else []
        | None \<Rightarrow> [])
     @ [name spec]
   \<and> length (sanitizeListName nm) = min 64 (length nm)
   \<and> (\<forall>i < length (sanitizeListName nm).
         sanitizeListName nm ! i = (if isWordChar (nm ! i) then nm ! i else CHR ''_''))
   \<and> (\<forall>c \<in> set (sanitizeListName nm). isWordChar c)"
proof (intro conjI)
  show "queryBgpq4ExpandedASNs_args spec sourcesArg =
     [''-j'', ''-t'', ''-h'', DEFAULT_BGPQ4_HOST, ''-l'', sanitizeListName (name spec)]
     @ (case sourcesArg of
          Some s \<Rightarrow> if trim s \<noteq> [] then [''-S'', trim s] else []
        | None \<Rightarrow> [])
     @ (case depth spec of
          Some d \<Rightarrow> if 0 \<le> d then [''-L'', String_num d] else []
        | None \<Rightarrow> [])
     @ [name spec]"
    by (auto simp: queryBgpq4ExpandedASNs_args_def Let_def trim_Nil split: option.splits)
  show "length (sanitizeListName nm) = min 64 (length nm)"
    by (simp add: sanitizeListName_eq min_def)
  show "\<forall>i < length (sanitizeListName nm).
         sanitizeListName nm ! i = (if isWordChar (nm ! i) then nm ! i else CHR ''_'')"
    by (simp add: sanitizeListName_eq)
  show "\<forall>c \<in> set (sanitizeListName nm). isWordChar c"
    using isWordChar_underscore
    by (auto simp: sanitizeListName_eq dest!: in_set_takeD)
qed

theorem bgpq4_args_shape_witness:
  "queryBgpq4ExpandedASNs_args \<lparr>name = ''AS-FOO'', flat = Some True, depth = Some 2, sources = None\<rparr> (Some '' RADB '')
     = [''-j'', ''-t'', ''-h'', ''whois.radb.net'', ''-l'', ''AS_FOO'', ''-S'', ''RADB'', ''-L'', ''2'', ''AS-FOO'']
   \<and> queryBgpq4ExpandedASNs_args \<lparr>name = ''AS-FOO'', flat = Some True, depth = Some (- 1), sources = None\<rparr> (Some ''  '')
     = [''-j'', ''-t'', ''-h'', ''whois.radb.net'', ''-l'', ''AS_FOO'', ''AS-FOO'']
   \<and> length (sanitizeListName (replicate 70 (CHR ''-''))) = 64"
  using bgpq4_args_shape [of "\<lparr>name = ''AS-FOO'', flat = Some True, depth = Some 2, sources = None\<rparr>" "Some '' RADB ''" "replicate 70 (CHR ''-'')"]
        bgpq4_args_shape [of "\<lparr>name = ''AS-FOO'', flat = Some True, depth = Some (- 1), sources = None\<rparr>" "Some ''  ''" "[]"]
  by (simp add: trim_def trimEnd_def trimStart_def isWhiteSpace_def String_num_def digits.simps digit_char_def
        sanitizeListName_def isWordChar_def DEFAULT_BGPQ4_HOST_def)



section \<open>Properties of the request cache\<close>

subsection \<open>The two branches of the cached query and of a completion\<close>

lemma query_hit:
  "FLATTEN_CACHE st (cacheKey spec src) = Some h \<Longrightarrow>
   queryBgpq4ExpandedASNsCached spec t src st = (h, st)"
  by (simp add: queryBgpq4ExpandedASNsCached_def)

lemma query_miss:
  assumes "FLATTEN_CACHE st (cacheKey spec src) = None"
  shows "queryBgpq4ExpandedASNsCached spec t src st =
           (invocations st,
            st\<lparr>promises := (promises st)
                  (invocations st := \<lparr>p_spec = spec, p_timeoutMs = t,
                                       p_sourcesArg = src, p_state = Pending\<rparr>),
               invocations := Suc (invocations st),
               FLATTEN_CACHE := (FLATTEN_CACHE st)(cacheKey spec src \<mapsto> invocations st)\<rparr>)"
  using assms by (simp add: queryBgpq4ExpandedASNsCached_def Let_def)

lemma query_cached_after:
  "queryBgpq4ExpandedASNsCached spec t src st = (h, st1) \<Longrightarrow>
   FLATTEN_CACHE st1 (cacheKey spec src) = Some h"
  by (cases "FLATTEN_CACHE st (cacheKey spec src)") (auto simp: query_hit query_miss)

lemma settle_noop:
  "\<not> (h < invocations st \<and> p_state (promises st h) = Pending) \<Longrightarrow> settle h outcome st = st"
  by (auto simp: settle_def Let_def)

lemma settle_success:
  assumes "h < invocations st" "p_state (promises st h) = Pending"
    and "queryBgpq4ExpandedASNs_result (p_spec (promises st h)) outcome = Inr asns"
  shows "settle h outcome st =
           st\<lparr>promises := (promises st)(h := (promises st h)\<lparr>p_state := Fulfilled asns\<rparr>)\<rparr>"
  using assms by (simp add: settle_def Let_def)

lemma settle_failure:
  assumes "h < invocations st" "p_state (promises st h) = Pending"
    and "queryBgpq4ExpandedASNs_result (p_spec (promises st h)) outcome = Inl err"
  shows "settle h outcome st =
           st\<lparr>FLATTEN_CACHE := (FLATTEN_CACHE st)(promise_key (promises st h) := None),
              promises := (promises st)(h := (promises st h)\<lparr>p_state := Rejected err\<rparr>)\<rparr>"
  using assms by (simp add: settle_def Let_def)

lemma promise_key_p_state [simp]: "promise_key (p\<lparr>p_state := s\<rparr>) = promise_key p"
  by (simp add: promise_key_def)

lemma run_Nil: "run st [] = st"
  by (simp add: run_def)

lemma run_Cons: "run st (ev # evs) = run (step st ev) evs"
  by (simp add: run_def)

subsection \<open>The invariant holds in every reachable state\<close>

lemma cache_invI:
  assumes "\<And>k h. FLATTEN_CACHE st k = Some h \<Longrightarrow> h < invocations st"
    and "\<And>k h. FLATTEN_CACHE st k = Some h \<Longrightarrow> promise_key (promises st h) = k"
    and "\<And>k h err. FLATTEN_CACHE st k = Some h \<Longrightarrow> p_state (promises st h) \<noteq> Rejected err"
    and "\<And>h. h < invocations st \<Longrightarrow> p_state (promises st h) = Pending \<Longrightarrow>
           FLATTEN_CACHE st (promise_key (promises st h)) = Some h"
  shows "cache_inv st"
  unfolding cache_inv_def using assms by blast

lemma cache_inv_allocated:
  "cache_inv st \<Longrightarrow> FLATTEN_CACHE st k = Some h \<Longrightarrow> h < invocations st"
  unfolding cache_inv_def by blast

lemma cache_inv_key:
  "cache_inv st \<Longrightarrow> FLATTEN_CACHE st k = Some h \<Longrightarrow> promise_key (promises st h) = k"
  unfolding cache_inv_def by blast

lemma cache_inv_not_rejected:
  "cache_inv st \<Longrightarrow> FLATTEN_CACHE st k = Some h \<Longrightarrow> p_state (promises st h) \<noteq> Rejected err"
  unfolding cache_inv_def by blast

lemma cache_inv_pending:
  "cache_inv st \<Longrightarrow> h < invocations st \<Longrightarrow> p_state (promises st h) = Pending \<Longrightarrow>
   FLATTEN_CACHE st (promise_key (promises st h)) = Some h"
  unfolding cache_inv_def by blast

lemma cache_inv_initial: "cache_inv initial_state"
  by (rule cache_invI) (simp_all add: initial_state_def)

lemma cache_inv_query:
  assumes inv: "cache_inv st"
  shows "cache_inv (snd (queryBgpq4ExpandedASNsCached spec t src st))"
proof (cases "FLATTEN_CACHE st (cacheKey spec src)")
  case (Some h)
  with inv show ?thesis by (simp add: query_hit)
next
  case None
  let ?n = "invocations st"
  let ?k = "cacheKey spec src"
  let ?new = "\<lparr>p_spec = spec, p_timeoutMs = t, p_sourcesArg = src, p_state = Pending\<rparr>"
  define st' where "st' = snd (queryBgpq4ExpandedASNsCached spec t src st)"
  have c': "FLATTEN_CACHE st' = (FLATTEN_CACHE st)(?k \<mapsto> ?n)"
    and p': "promises st' = (promises st)(?n := ?new)"
    and n': "invocations st' = Suc ?n"
    by (simp_all add: st'_def query_miss [OF None])
  have knew: "promise_key ?new = ?k" by (simp add: promise_key_def)
  have old: "h < ?n \<and> promise_key (promises st h) = k \<and> p_state (promises st h) \<noteq> Rejected err
             \<and> promises st' h = promises st h"
    if "FLATTEN_CACHE st k = Some h" for k h err
    using cache_inv_allocated [OF inv that] cache_inv_key [OF inv that]
      cache_inv_not_rejected [OF inv that] by (simp add: p')
  have split: "(k = ?k \<and> h = ?n) \<or> (k \<noteq> ?k \<and> FLATTEN_CACHE st k = Some h)"
    if "FLATTEN_CACHE st' k = Some h" for k h
    using that by (auto simp: c' split: if_splits)
  have "cache_inv st'"
  proof (rule cache_invI)
    fix k h assume "FLATTEN_CACHE st' k = Some h"
    from split [OF this] show "h < invocations st'"
      using old by (auto simp: n' less_Suc_eq)
  next
    fix k h assume "FLATTEN_CACHE st' k = Some h"
    from split [OF this] show "promise_key (promises st' h) = k"
    proof
      assume "k = ?k \<and> h = ?n"
      then show ?thesis by (simp add: p' knew)
    next
      assume "k \<noteq> ?k \<and> FLATTEN_CACHE st k = Some h"
      then show ?thesis using old [of k h] by simp
    qed
  next
    fix k h err assume "FLATTEN_CACHE st' k = Some h"
    from split [OF this] show "p_state (promises st' h) \<noteq> Rejected err"
    proof
      assume "k = ?k \<and> h = ?n"
      then show ?thesis by (simp add: p')
    next
      assume "k \<noteq> ?k \<and> FLATTEN_CACHE st k = Some h"
      then show ?thesis using old [of k h err] by simp
    qed
  next
    fix h assume lt: "h < invocations st'" and pe: "p_state (promises st' h) = Pending"
    show "FLATTEN_CACHE st' (promise_key (promises st' h)) = Some h"
    proof (cases "h = ?n")
      case True
      then show ?thesis by (simp add: p' c' knew)
    next
      case False
      with lt have h: "h < ?n" by (simp add: n')
      from False pe have "p_state (promises st h) = Pending" by (simp add: p')
      from cache_inv_pending [OF inv h this] None False
      show ?thesis by (auto simp: p' c')
    qed
  qed
  then show ?thesis by (simp add: st'_def)
qed

lemma cache_inv_settle:
  assumes inv: "cache_inv st"
  shows "cache_inv (settle h outcome st)"
proof (cases "h < invocations st \<and> p_state (promises st h) = Pending")
  case False
  with inv show ?thesis by (simp add: settle_noop)
next
  case True
  then have h: "h < invocations st" and p: "p_state (promises st h) = Pending" by simp_all
  have cached: "FLATTEN_CACHE st (promise_key (promises st h)) = Some h"
    by (rule cache_inv_pending [OF inv h p])
  show ?thesis
  proof (cases "queryBgpq4ExpandedASNs_result (p_spec (promises st h)) outcome")
    case (Inr asns)
    define st' where "st' = settle h outcome st"
    have c': "FLATTEN_CACHE st' = FLATTEN_CACHE st"
      and p': "promises st' = (promises st)(h := (promises st h)\<lparr>p_state := Fulfilled asns\<rparr>)"
      and n': "invocations st' = invocations st"
      by (simp_all add: st'_def settle_success [OF h p Inr])
    have "cache_inv st'"
    proof (rule cache_invI)
      fix k h' assume "FLATTEN_CACHE st' k = Some h'"
      then show "h' < invocations st'"
        using cache_inv_allocated [OF inv] by (simp add: c' n')
    next
      fix k h' assume "FLATTEN_CACHE st' k = Some h'"
      then show "promise_key (promises st' h') = k"
        using cache_inv_key [OF inv, of k h'] by (auto simp: c' p')
    next
      fix k h' err assume "FLATTEN_CACHE st' k = Some h'"
      then show "p_state (promises st' h') \<noteq> Rejected err"
        using cache_inv_not_rejected [OF inv, of k h' err] by (auto simp: c' p')
    next
      fix h' assume "h' < invocations st'" "p_state (promises st' h') = Pending"
      then show "FLATTEN_CACHE st' (promise_key (promises st' h')) = Some h'"
        using cache_inv_pending [OF inv, of h'] by (simp add: c' p' n' split: if_splits)
    qed
    then show ?thesis by (simp add: st'_def)
  next
    case (Inl err)
    define st' where "st' = settle h outcome st"
    have c': "FLATTEN_CACHE st' = (FLATTEN_CACHE st)(promise_key (promises st h) := None)"
      and p': "promises st' = (promises st)(h := (promises st h)\<lparr>p_state := Rejected err\<rparr>)"
      and n': "invocations st' = invocations st"
      by (simp_all add: st'_def settle_failure [OF h p Inl])
    have old: "k \<noteq> promise_key (promises st h) \<and> FLATTEN_CACHE st k = Some h' \<and> h' \<noteq> h"
      if "FLATTEN_CACHE st' k = Some h'" for k h'
    proof -
      from that have 1: "k \<noteq> promise_key (promises st h)" and 2: "FLATTEN_CACHE st k = Some h'"
        by (auto simp: c' split: if_splits)
      from cache_inv_key [OF inv 2] 1 have "h' \<noteq> h" by auto
      with 1 2 show ?thesis by simp
    qed
    have "cache_inv st'"
    proof (rule cache_invI)
      fix k h' assume "FLATTEN_CACHE st' k = Some h'"
      from old [OF this] show "h' < invocations st'"
        using cache_inv_allocated [OF inv, of k h'] by (simp add: n')
    next
      fix k h' assume "FLATTEN_CACHE st' k = Some h'"
      from old [OF this] show "promise_key (promises st' h') = k"
        using cache_inv_key [OF inv, of k h'] by (auto simp: p')
    next
      fix k h' e assume "FLATTEN_CACHE st' k = Some h'"
      from old [OF this] show "p_state (promises st' h') \<noteq> Rejected e"
        using cache_inv_not_rejected [OF inv, of k h' e] by (auto simp: p')
    next
      fix h' assume lt: "h' < invocations st'" and pe: "p_state (promises st' h') = Pending"
      from pe have ne: "h' \<noteq> h" by (auto simp: p')
      with pe have pe0: "p_state (promises st h') = Pending" by (simp add: p')
      from lt have lt0: "h' < invocations st" by (simp add: n')
      have c0: "FLATTEN_CACHE st (promise_key (promises st h')) = Some h'"
        by (rule cache_inv_pending [OF inv lt0 pe0])
      have "promise_key (promises st h') \<noteq> promise_key (promises st h)"
        using c0 cached ne by auto
      with c0 ne show "FLATTEN_CACHE st' (promise_key (promises st' h')) = Some h'"
        by (simp add: c' p')
    qed
    then show ?thesis by (simp add: st'_def)
  qed
qed

lemma cache_inv_step: "cache_inv st \<Longrightarrow> cache_inv (step st ev)"
  by (cases ev) (simp_all add: cache_inv_query cache_inv_settle)

lemma reachable_inv: "reachable st \<Longrightarrow> cache_inv st"
  by (induction rule: reachable.induct) (simp_all add: cache_inv_initial cache_inv_step)

lemma reachable_run: "reachable st \<Longrightarrow> reachable (run st evs)"
  by (induction evs arbitrary: st) (simp_all add: run_Nil run_Cons reachable_step)

lemma cache_inv_run: "cache_inv st \<Longrightarrow> cache_inv (run st evs)"
  by (induction evs arbitrary: st) (simp_all add: run_Nil run_Cons cache_inv_step)

subsection \<open>What an event leaves in place\<close>

text \<open>An event keeps an entry whose promise does not fail in it.\<close>

lemma step_keeps_entry:
  assumes inv: "cache_inv st" and c: "FLATTEN_CACHE st k = Some h"
    and nf: "\<not> fails_promise h (p_spec (promises st h)) ev"
  shows "FLATTEN_CACHE (step st ev) k = Some h
         \<and> p_spec (promises (step st ev) h) = p_spec (promises st h)
         \<and> p_timeoutMs (promises (step st ev) h) = p_timeoutMs (promises st h)
         \<and> (\<forall>v. p_state (promises st h) = Fulfilled v \<longrightarrow>
                  p_state (promises (step st ev) h) = Fulfilled v)"
proof (cases ev)
  case (Query s t a)
  show ?thesis
  proof (cases "FLATTEN_CACHE st (cacheKey s a)")
    case (Some h')
    with Query c show ?thesis by (simp add: query_hit)
  next
    case None
    with c have "cacheKey s a \<noteq> k" by auto
    moreover from cache_inv_allocated [OF inv c] have "h \<noteq> invocations st" by simp
    ultimately show ?thesis using Query c by (simp add: query_miss [OF None])
  qed
next
  case (Complete h' outcome)
  show ?thesis
  proof (cases "h' < invocations st \<and> p_state (promises st h') = Pending")
    case False
    with Complete c show ?thesis by (simp add: settle_noop)
  next
    case True
    then have h': "h' < invocations st" and p: "p_state (promises st h') = Pending" by simp_all
    show ?thesis
    proof (cases "queryBgpq4ExpandedASNs_result (p_spec (promises st h')) outcome")
      case (Inr asns)
      with Complete c p show ?thesis by (auto simp: settle_success [OF h' p Inr])
    next
      case (Inl err)
      with nf Complete have ne: "h' \<noteq> h" by auto
      from cache_inv_pending [OF inv h' p] c ne
      have "promise_key (promises st h') \<noteq> k" by auto
      with Complete c ne show ?thesis by (simp add: settle_failure [OF h' p Inl])
    qed
  qed
qed


lemma run_keeps_entry:
  assumes "cache_inv st" and "FLATTEN_CACHE st k = Some h"
    and "\<forall>ev \<in> set evs. \<not> fails_promise h (p_spec (promises st h)) ev"
  shows "FLATTEN_CACHE (run st evs) k = Some h
         \<and> p_spec (promises (run st evs) h) = p_spec (promises st h)
         \<and> p_timeoutMs (promises (run st evs) h) = p_timeoutMs (promises st h)"
  using assms
proof (induction evs arbitrary: st)
  case Nil
  then show ?case by (simp add: run_Nil)
next
  case (Cons ev evs)
  from Cons.prems have nf: "\<not> fails_promise h (p_spec (promises st h)) ev" by simp
  note keep = step_keeps_entry [OF Cons.prems(1) Cons.prems(2) nf]
  have "FLATTEN_CACHE (run (step st ev) evs) k = Some h
         \<and> p_spec (promises (run (step st ev) evs) h) = p_spec (promises (step st ev) h)
         \<and> p_timeoutMs (promises (run (step st ev) evs) h) = p_timeoutMs (promises (step st ev) h)"
  proof (rule Cons.IH)
    show "cache_inv (step st ev)" by (rule cache_inv_step [OF Cons.prems(1)])
    show "FLATTEN_CACHE (step st ev) k = Some h" using keep by simp
    from keep have eq: "p_spec (promises (step st ev) h) = p_spec (promises st h)" by blast
    show "\<forall>e \<in> set evs. \<not> fails_promise h (p_spec (promises (step st ev) h)) e"
      unfolding eq using Cons.prems(3) by simp
  qed
  with keep show ?case unfolding run_Cons by simp
qed

lemma step_keeps_fulfilled:
  assumes inv: "cache_inv st" and c: "FLATTEN_CACHE st k = Some h"
    and f: "p_state (promises st h) = Fulfilled v"
  shows "FLATTEN_CACHE (step st ev) k = Some h \<and> p_state (promises (step st ev) h) = Fulfilled v"
proof (cases "fails_promise h (p_spec (promises st h)) ev")
  case False
  from step_keeps_entry [OF inv c False] f show ?thesis by simp
next
  case True
  then obtain outcome where "ev = Complete h outcome"
    by (cases ev) auto
  with c f show ?thesis by (simp add: settle_noop)
qed

lemma run_keeps_fulfilled:
  assumes "cache_inv st" and "FLATTEN_CACHE st k = Some h"
    and "p_state (promises st h) = Fulfilled v"
  shows "FLATTEN_CACHE (run st evs) k = Some h \<and> p_state (promises (run st evs) h) = Fulfilled v"
  using assms
proof (induction evs arbitrary: st)
  case Nil
  then show ?case by (simp add: run_Nil)
next
  case (Cons ev evs)
  note keep = step_keeps_fulfilled [OF Cons.prems, of ev]
  have "FLATTEN_CACHE (run (step st ev) evs) k = Some h
        \<and> p_state (promises (run (step st ev) evs) h) = Fulfilled v"
  proof (rule Cons.IH)
    show "cache_inv (step st ev)" by (rule cache_inv_step [OF Cons.prems(1)])
    show "FLATTEN_CACHE (step st ev) k = Some h" using keep by blast
    show "p_state (promises (step st ev) h) = Fulfilled v" using keep by blast
  qed
  then show ?case by (simp add: run_Cons)
qed

subsection \<open>Deduplication\<close>

lemma invocations_settle: "invocations (settle h outcome st) = invocations st"
  by (simp add: settle_def Let_def split: sum.splits)

lemma started_for_cong:
  assumes "invocations st' = invocations st"
    and "\<And>h. h < invocations st \<Longrightarrow> promise_key (promises st' h) = promise_key (promises st h)"
  shows "started_for k st' = started_for k st"
proof -
  have "filter (\<lambda>h. promise_key (promises st' h) = k) [0..<invocations st]
        = filter (\<lambda>h. promise_key (promises st h) = k) [0..<invocations st]"
    by (rule filter_cong) (simp_all add: assms(2))
  then show ?thesis by (simp add: started_for_def assms(1))
qed

lemma started_for_settle: "started_for k (settle h outcome st) = started_for k st"
proof (rule started_for_cong)
  show "invocations (settle h outcome st) = invocations st" by (rule invocations_settle)
  fix h' assume "h' < invocations st"
  show "promise_key (promises (settle h outcome st) h') = promise_key (promises st h')"
    by (simp add: settle_def Let_def split: sum.splits)
qed

lemma started_for_miss:
  assumes "FLATTEN_CACHE st (cacheKey spec src) = None"
  shows "started_for k (snd (queryBgpq4ExpandedASNsCached spec t src st))
           = (if k = cacheKey spec src then Suc (started_for k st) else started_for k st)"
proof -
  let ?n = "invocations st"
  let ?new = "\<lparr>p_spec = spec, p_timeoutMs = t, p_sourcesArg = src, p_state = Pending\<rparr>"
  have "filter (\<lambda>h. promise_key (((promises st)(?n := ?new)) h) = k) [0..<?n]
        = filter (\<lambda>h. promise_key (promises st h) = k) [0..<?n]"
    by (rule filter_cong) simp_all
  then show ?thesis
    by (auto simp: query_miss [OF assms] started_for_def promise_key_def)
qed

lemma started_for_step:
  assumes "FLATTEN_CACHE st k = Some h"
  shows "started_for k (step st ev) = started_for k st"
proof (cases ev)
  case (Query s t a)
  show ?thesis
  proof (cases "FLATTEN_CACHE st (cacheKey s a)")
    case (Some h')
    with Query show ?thesis by (simp add: query_hit)
  next
    case None
    with assms have "k \<noteq> cacheKey s a" by auto
    with Query show ?thesis by (simp add: started_for_miss [OF None])
  qed
next
  case (Complete h' outcome)
  then show ?thesis by (simp add: started_for_settle)
qed

lemma run_started_for:
  assumes "cache_inv st" and "FLATTEN_CACHE st k = Some h"
    and "\<forall>ev \<in> set evs. \<not> fails_promise h (p_spec (promises st h)) ev"
  shows "started_for k (run st evs) = started_for k st"
  using assms
proof (induction evs arbitrary: st)
  case Nil
  then show ?case by (simp add: run_Nil)
next
  case (Cons ev evs)
  from Cons.prems have nf: "\<not> fails_promise h (p_spec (promises st h)) ev" by simp
  note keep = step_keeps_entry [OF Cons.prems(1) Cons.prems(2) nf]
  from keep have eq: "p_spec (promises (step st ev) h) = p_spec (promises st h)" by blast
  have "started_for k (run (step st ev) evs) = started_for k (step st ev)"
  proof (rule Cons.IH)
    show "cache_inv (step st ev)" by (rule cache_inv_step [OF Cons.prems(1)])
    show "FLATTEN_CACHE (step st ev) k = Some h" using keep by blast
    show "\<forall>e \<in> set evs. \<not> fails_promise h (p_spec (promises (step st ev) h)) e"
      unfolding eq using Cons.prems(3) by simp
  qed
  then show ?case
    by (simp add: run_Cons started_for_step [OF Cons.prems(2)])
qed

text \<open>
  Claim C1. In every reachable state of the cache, a call of the cached query that finds
  an entry for its key returns the existing handle and changes nothing: no promise is
  created and the adapter is not invoked. A call that finds no entry invokes the adapter
  once and caches the new handle. So of two calls with identical name, depth and sources,
  where the entry of the first is still held when the second is made (whatever other
  queries and completions happen in between, as long as the promise of the first call has
  not failed: a failure evicts the entry, see C2), the second returns the handle of the
  first and invokes nothing: from the first call on, however many calls there are for the
  key, the number of adapter invocations for it grows by exactly one if the first call
  found no entry, and not at all if it found one.
\<close>

theorem cached_query_deduplicates:
  assumes "reachable st"
    and "queryBgpq4ExpandedASNsCached spec t src st = (h, st1)"
    and "name spec' = name spec \<and> depth spec' = depth spec \<and> src' = src"
    and "\<forall>ev \<in> set evs. \<not> fails_promise h (p_spec (promises st1 h)) ev"
  shows "(\<forall>cached. FLATTEN_CACHE st (cacheKey spec src) = Some cached \<longrightarrow> h = cached \<and> st1 = st)
       \<and> (FLATTEN_CACHE st (cacheKey spec src) = None \<longrightarrow>
            h = invocations st \<and> invocations st1 = Suc (invocations st))
       \<and> queryBgpq4ExpandedASNsCached spec' t' src' (run st1 evs) = (h, run st1 evs)
       \<and> started_for (cacheKey spec src) (run st1 evs) =
           (if FLATTEN_CACHE st (cacheKey spec src) = None
            then Suc (started_for (cacheKey spec src) st)
            else started_for (cacheKey spec src) st)"
proof (intro conjI allI impI)
  fix cached assume "FLATTEN_CACHE st (cacheKey spec src) = Some cached"
  from query_hit [OF this, of t] assms(2) show "h = cached" "st1 = st" by simp_all
next
  assume "FLATTEN_CACHE st (cacheKey spec src) = None"
  from query_miss [OF this, of t] assms(2)
  show "h = invocations st" "invocations st1 = Suc (invocations st)" by auto
next
  have inv1: "cache_inv st1"
    using cache_inv_query [OF reachable_inv [OF assms(1)], of spec t src] assms(2) by simp
  have c1: "FLATTEN_CACHE st1 (cacheKey spec src) = Some h"
    by (rule query_cached_after [OF assms(2)])
  have key: "cacheKey spec' src' = cacheKey spec src"
    using assms(3) by (simp add: cacheKey_def)
  from run_keeps_entry [OF inv1 c1 assms(4)]
  have "FLATTEN_CACHE (run st1 evs) (cacheKey spec' src') = Some h" by (simp add: key)
  then show "queryBgpq4ExpandedASNsCached spec' t' src' (run st1 evs) = (h, run st1 evs)"
    by (rule query_hit)
  have later: "started_for (cacheKey spec src) (run st1 evs) = started_for (cacheKey spec src) st1"
    by (rule run_started_for [OF inv1 c1 assms(4)])
  have first: "started_for (cacheKey spec src) st1 =
           (if FLATTEN_CACHE st (cacheKey spec src) = None
            then Suc (started_for (cacheKey spec src) st)
            else started_for (cacheKey spec src) st)"
  proof (cases "FLATTEN_CACHE st (cacheKey spec src)")
    case None
    from started_for_miss [OF None, of "cacheKey spec src" t] assms(2) None
    show ?thesis by simp
  next
    case (Some cached)
    from query_hit [OF Some, of t] assms(2) Some show ?thesis by simp
  qed
  show "started_for (cacheKey spec src) (run st1 evs) =
           (if FLATTEN_CACHE st (cacheKey spec src) = None
            then Suc (started_for (cacheKey spec src) st)
            else started_for (cacheKey spec src) st)"
    unfolding later by (rule first)
qed

theorem cached_query_deduplicates_witness:
  "let spec = \<lparr>name = ''AS-FOO'', flat = Some True, depth = Some 1, sources = None\<rparr>;
       first = queryBgpq4ExpandedASNsCached spec 20000 (Some ''RADB'') initial_state;
       later = run (snd first)
                 [Query spec 1000 (Some ''RADB''),
                  Query \<lparr>name = ''AS-BAR'', flat = Some True, depth = None, sources = None\<rparr> 20000 None,
                  Complete 0 (StdoutJSON (JObj [(''AS_FOO'', JArr [JNum 100])]))]
   in fst first = 0 \<and> invocations (snd first) = 1
      \<and> queryBgpq4ExpandedASNsCached (spec\<lparr>flat := None\<rparr>) 5 (Some ''RADB'') later = (0, later)
      \<and> started_for (cacheKey spec (Some ''RADB'')) later = 1"
proof -
  let ?spec = "\<lparr>name = ''AS-FOO'', flat = Some True, depth = Some 1, sources = None\<rparr>"
  let ?first = "queryBgpq4ExpandedASNsCached ?spec 20000 (Some ''RADB'') initial_state"
  let ?evs = "[Query ?spec 1000 (Some ''RADB''),
               Query \<lparr>name = ''AS-BAR'', flat = Some True, depth = None, sources = None\<rparr> 20000 None,
               Complete 0 (StdoutJSON (JObj [(''AS_FOO'', JArr [JNum 100])]))]"
  have none: "FLATTEN_CACHE initial_state (cacheKey ?spec (Some ''RADB'')) = None"
    by (simp add: initial_state_def)
  have zero: "started_for (cacheKey ?spec (Some ''RADB'')) initial_state = 0"
    by (simp add: started_for_def initial_state_def)
  have q: "?first = (fst ?first, snd ?first)" by simp
  have same: "name (?spec\<lparr>flat := None\<rparr>) = name ?spec \<and> depth (?spec\<lparr>flat := None\<rparr>) = depth ?spec
              \<and> Some ''RADB'' = Some ''RADB''" by simp
  have nf: "\<forall>ev \<in> set ?evs. \<not> fails_promise (fst ?first) (p_spec (promises (snd ?first) (fst ?first))) ev"
    by (simp add: query_miss [OF none] queryBgpq4ExpandedASNs_result_def)
  from cached_query_deduplicates [OF reachable_initial q same nf, of 5] none zero
  show ?thesis by (simp add: Let_def initial_state_def)
qed

subsection \<open>Failures\<close>

lemma awaitCached_failure:
  assumes inv: "cache_inv st" and a: "awaitCached w spec t src st = (Inl err, st')"
  shows "FLATTEN_CACHE st' (cacheKey spec src) = None"
proof -
  obtain h st1 where q: "queryBgpq4ExpandedASNsCached spec t src st = (h, st1)"
    by (cases "queryBgpq4ExpandedASNsCached spec t src st")
  have inv1: "cache_inv st1" using cache_inv_query [OF inv, of spec t src] q by simp
  have c1: "FLATTEN_CACHE st1 (cacheKey spec src) = Some h" by (rule query_cached_after [OF q])
  have lt: "h < invocations st1" by (rule cache_inv_allocated [OF inv1 c1])
  have pk: "promise_key (promises st1 h) = cacheKey spec src" by (rule cache_inv_key [OF inv1 c1])
  from a q have aw: "await w h st1 = (Inl err, st')" by (simp add: awaitCached_def)
  show ?thesis
  proof (cases "p_state (promises st1 h)")
    case Pending
    let ?outcome = "w h (queryBgpq4ExpandedASNs_args (p_spec (promises st1 h)) (p_sourcesArg (promises st1 h)))
                      (p_timeoutMs (promises st1 h))"
    from aw Pending have r: "queryBgpq4ExpandedASNs_result (p_spec (promises st1 h)) ?outcome = Inl err"
      and s: "st' = settle h ?outcome st1"
      by (simp_all add: await_def Let_def)
    show ?thesis unfolding s settle_failure [OF lt Pending r] by (simp add: pk)
  next
    case (Fulfilled asns)
    with aw show ?thesis by (simp add: await_def)
  next
    case (Rejected e)
    with cache_inv_not_rejected [OF inv1 c1, of e] show ?thesis by simp
  qed
qed

lemma invocations_await: "invocations (snd (await w h st)) = invocations st"
  by (simp add: await_def Let_def invocations_settle split: promise_state.splits)

lemma awaitCached_miss_invokes:
  assumes "FLATTEN_CACHE st (cacheKey spec src) = None"
  shows "invocations (snd (awaitCached w spec t src st)) = Suc (invocations st)"
  by (simp add: awaitCached_def query_miss [OF assms] invocations_await)

lemma failed_completion:
  assumes "h < invocations st" "p_state (promises st h) = Pending"
    and "queryBgpq4ExpandedASNs_result (p_spec (promises st h)) outcome = Inl err"
  shows "FLATTEN_CACHE (settle h outcome st) (promise_key (promises st h)) = None"
    and "p_state (promises (settle h outcome st) h) = Rejected err"
    and "invocations (settle h outcome st) = invocations st"
  by (simp_all add: settle_failure [OF assms])

text \<open>
  Claim C2. In every reachable state: when the process behind a pending promise fails, the
  completion removes the entry of its key and rejects the promise in one atomic step, so
  no caller can see the failure while the entry is still there: no cached promise is ever
  rejected. A later call with the same key finds no entry, creates a fresh promise and
  invokes the adapter again; in particular an awaited cached query that ends in an error
  leaves no entry behind, and the next awaited query with that key starts a new
  invocation. An entry whose promise is fulfilled stays in the cache, fulfilled with the
  same value, through every further history.
\<close>

theorem failure_evicts_entry:
  assumes "reachable st"
  shows "(h < invocations st \<and> p_state (promises st h) = Pending \<and>
          queryBgpq4ExpandedASNs_result (p_spec (promises st h)) outcome = Inl err \<longrightarrow>
            FLATTEN_CACHE (settle h outcome st) (promise_key (promises st h)) = None
          \<and> p_state (promises (settle h outcome st) h) = Rejected err
          \<and> (cacheKey spec src = promise_key (promises st h) \<longrightarrow>
               fst (queryBgpq4ExpandedASNsCached spec t src (settle h outcome st)) = invocations st
             \<and> invocations (snd (queryBgpq4ExpandedASNsCached spec t src (settle h outcome st)))
                 = Suc (invocations st)))
       \<and> (\<forall>k c e. FLATTEN_CACHE st k = Some c \<longrightarrow> p_state (promises st c) \<noteq> Rejected e)
       \<and> (\<forall>k c v. FLATTEN_CACHE st k = Some c \<and> p_state (promises st c) = Fulfilled v \<longrightarrow>
             FLATTEN_CACHE (run st evs) k = Some c \<and> p_state (promises (run st evs) c) = Fulfilled v)
       \<and> (\<forall>e st1. awaitCached w spec t src st = (Inl e, st1) \<longrightarrow>
             FLATTEN_CACHE st1 (cacheKey spec src) = None
           \<and> invocations (snd (awaitCached w' spec t' src st1)) = Suc (invocations st1))"
proof -
  note inv = reachable_inv [OF assms]
  have 1: "FLATTEN_CACHE (settle h outcome st) (promise_key (promises st h)) = None
          \<and> p_state (promises (settle h outcome st) h) = Rejected err
          \<and> (cacheKey spec src = promise_key (promises st h) \<longrightarrow>
               fst (queryBgpq4ExpandedASNsCached spec t src (settle h outcome st)) = invocations st
             \<and> invocations (snd (queryBgpq4ExpandedASNsCached spec t src (settle h outcome st)))
                 = Suc (invocations st))"
    if f: "h < invocations st" "p_state (promises st h) = Pending"
      "queryBgpq4ExpandedASNs_result (p_spec (promises st h)) outcome = Inl err"
  proof (intro conjI impI)
    show "FLATTEN_CACHE (settle h outcome st) (promise_key (promises st h)) = None"
      by (rule failed_completion(1) [OF f])
    show "p_state (promises (settle h outcome st) h) = Rejected err"
      by (rule failed_completion(2) [OF f])
    assume k: "cacheKey spec src = promise_key (promises st h)"
    have none: "FLATTEN_CACHE (settle h outcome st) (cacheKey spec src) = None"
      unfolding k by (rule failed_completion(1) [OF f])
    show "fst (queryBgpq4ExpandedASNsCached spec t src (settle h outcome st)) = invocations st"
      by (simp add: query_miss [OF none] failed_completion(3) [OF f])
    show "invocations (snd (queryBgpq4ExpandedASNsCached spec t src (settle h outcome st)))
            = Suc (invocations st)"
      by (simp add: query_miss [OF none] failed_completion(3) [OF f])
  qed
  have 2: "p_state (promises st c) \<noteq> Rejected e" if "FLATTEN_CACHE st k = Some c" for k c e
    by (rule cache_inv_not_rejected [OF inv that])
  have 3: "FLATTEN_CACHE (run st evs) k = Some c \<and> p_state (promises (run st evs) c) = Fulfilled v"
    if "FLATTEN_CACHE st k = Some c" "p_state (promises st c) = Fulfilled v" for k c v
    by (rule run_keeps_fulfilled [OF inv that])
  have 4: "FLATTEN_CACHE st1 (cacheKey spec src) = None
           \<and> invocations (snd (awaitCached w' spec t' src st1)) = Suc (invocations st1)"
    if "awaitCached w spec t src st = (Inl e, st1)" for e st1
    using awaitCached_failure [OF inv that] awaitCached_miss_invokes by simp
  from 1 2 3 4 show ?thesis by blast
qed


theorem failure_evicts_entry_witness:
  "let spec = \<lparr>name = ''AS-FOO'', flat = Some True, depth = None, sources = None\<rparr>;
       st = step initial_state (Query spec 20000 None);
       failed = settle 0 (ExecFailed ''bgpq4 failed (exit 1): no route to host'') st
   in FLATTEN_CACHE st (cacheKey spec None) = Some 0
      \<and> FLATTEN_CACHE failed (cacheKey spec None) = None
      \<and> p_state (promises failed 0) = Rejected (ExpansionFailure ''bgpq4 failed (exit 1): no route to host'')
      \<and> fst (queryBgpq4ExpandedASNsCached spec 20000 None failed) = 1
      \<and> invocations (snd (queryBgpq4ExpandedASNsCached spec 20000 None failed)) = 2"
proof -
  let ?spec = "\<lparr>name = ''AS-FOO'', flat = Some True, depth = None, sources = None\<rparr>"
  let ?st = "step initial_state (Query ?spec 20000 None)"
  let ?outcome = "ExecFailed ''bgpq4 failed (exit 1): no route to host''"
  let ?err = "ExpansionFailure ''bgpq4 failed (exit 1): no route to host''"
  have none: "FLATTEN_CACHE initial_state (cacheKey ?spec None) = None"
    by (simp add: initial_state_def)
  have st: "invocations ?st = 1" "promises ?st 0 = \<lparr>p_spec = ?spec, p_timeoutMs = 20000,
              p_sourcesArg = None, p_state = Pending\<rparr>"
    "FLATTEN_CACHE ?st (cacheKey ?spec None) = Some 0"
    unfolding step.simps query_miss [OF none] by (simp_all add: initial_state_def)
  have prem: "0 < invocations ?st \<and> p_state (promises ?st 0) = Pending \<and>
              queryBgpq4ExpandedASNs_result (p_spec (promises ?st 0)) ?outcome = Inl ?err"
    by (simp add: st queryBgpq4ExpandedASNs_result_def del: step.simps)
  have key: "cacheKey ?spec None = promise_key (promises ?st 0)"
    by (simp add: st promise_key_def del: step.simps)
  have r: "reachable ?st" by (rule reachable_step [OF reachable_initial])
  note fe = failure_evicts_entry [OF r, where h = 0 and outcome = ?outcome and err = ?err
      and spec = ?spec and src = None and t = 20000]
  from fe have "0 < invocations ?st \<and> p_state (promises ?st 0) = Pending \<and>
          queryBgpq4ExpandedASNs_result (p_spec (promises ?st 0)) ?outcome = Inl ?err \<longrightarrow>
            FLATTEN_CACHE (settle 0 ?outcome ?st) (promise_key (promises ?st 0)) = None
          \<and> p_state (promises (settle 0 ?outcome ?st) 0) = Rejected ?err
          \<and> (cacheKey ?spec None = promise_key (promises ?st 0) \<longrightarrow>
               fst (queryBgpq4ExpandedASNsCached ?spec 20000 None (settle 0 ?outcome ?st)) = invocations ?st
             \<and> invocations (snd (queryBgpq4ExpandedASNsCached ?spec 20000 None (settle 0 ?outcome ?st)))
                 = Suc (invocations ?st))"
    by (rule conjunct1)
  from this prem
  have post: "FLATTEN_CACHE (settle 0 ?outcome ?st) (promise_key (promises ?st 0)) = None
          \<and> p_state (promises (settle 0 ?outcome ?st) 0) = Rejected ?err
          \<and> (cacheKey ?spec None = promise_key (promises ?st 0) \<longrightarrow>
               fst (queryBgpq4ExpandedASNsCached ?spec 20000 None (settle 0 ?outcome ?st)) = invocations ?st
             \<and> invocations (snd (queryBgpq4ExpandedASNsCached ?spec 20000 None (settle 0 ?outcome ?st)))
                 = Suc (invocations ?st))"
    by (rule mp)
  from post have a: "FLATTEN_CACHE (settle 0 ?outcome ?st) (cacheKey ?spec None) = None"
    unfolding key [symmetric] by (rule conjunct1)
  from post have b: "p_state (promises (settle 0 ?outcome ?st) 0) = Rejected ?err"
    by (rule conjunct1 [OF conjunct2])
  from post have "cacheKey ?spec None = promise_key (promises ?st 0) \<longrightarrow>
               fst (queryBgpq4ExpandedASNsCached ?spec 20000 None (settle 0 ?outcome ?st)) = invocations ?st
             \<and> invocations (snd (queryBgpq4ExpandedASNsCached ?spec 20000 None (settle 0 ?outcome ?st)))
                 = Suc (invocations ?st)"
    by (rule conjunct2 [OF conjunct2])
  from this key
  have c: "fst (queryBgpq4ExpandedASNsCached ?spec 20000 None (settle 0 ?outcome ?st)) = invocations ?st
             \<and> invocations (snd (queryBgpq4ExpandedASNsCached ?spec 20000 None (settle 0 ?outcome ?st)))
                 = Suc (invocations ?st)"
    by (rule mp)
  from a b c
  show ?thesis by (simp add: Let_def st del: step.simps)
qed

subsection \<open>The key\<close>

text \<open>
  Claim C10. The cache key is the name, the depth rendered as a string (empty when the
  depth is not a number) and the trimmed sources argument (empty when absent), joined by
  vertical bars. Two calls that agree on these three have the same key, whatever their
  \<open>flat\<close> flags and timeouts are. So a second cached query with the same name, depth and
  sources but another timeout returns the handle of the first call and leaves the state as
  it is; awaiting it is awaiting the promise of the first call, which was created with the
  timeout of the first call: the timeout of the second call has no effect.
\<close>

theorem cacheKey_ignores_timeout_and_flat:
  assumes "name spec' = name spec" and "depth spec' = depth spec"
    and "(case src' of Some s \<Rightarrow> trim s | None \<Rightarrow> []) = (case src of Some s \<Rightarrow> trim s | None \<Rightarrow> [])"
  shows "cacheKey spec' src' = cacheKey spec src
       \<and> cacheKey spec src =
           name spec @ ''|'' @ (case depth spec of Some d \<Rightarrow> String_num d | None \<Rightarrow> [])
             @ ''|'' @ (case src of Some s \<Rightarrow> trim s | None \<Rightarrow> [])
       \<and> (\<forall>h st1. queryBgpq4ExpandedASNsCached spec t src st = (h, st1) \<longrightarrow>
              queryBgpq4ExpandedASNsCached spec' t' src' st1 = (h, st1)
            \<and> awaitCached w spec' t' src' st1 = await w h st1
            \<and> (FLATTEN_CACHE st (cacheKey spec src) = None \<longrightarrow> p_timeoutMs (promises st1 h) = t))"
proof (intro conjI allI impI)
  show key: "cacheKey spec' src' = cacheKey spec src"
    using assms by (simp add: cacheKey_def)
  show "cacheKey spec src =
           name spec @ ''|'' @ (case depth spec of Some d \<Rightarrow> String_num d | None \<Rightarrow> [])
             @ ''|'' @ (case src of Some s \<Rightarrow> trim s | None \<Rightarrow> [])"
    by (simp add: cacheKey_def)
  fix h st1 assume q: "queryBgpq4ExpandedASNsCached spec t src st = (h, st1)"
  from query_cached_after [OF q] have "FLATTEN_CACHE st1 (cacheKey spec' src') = Some h"
    by (simp add: key)
  then show q': "queryBgpq4ExpandedASNsCached spec' t' src' st1 = (h, st1)"
    by (rule query_hit)
  show "awaitCached w spec' t' src' st1 = await w h st1"
    by (simp add: awaitCached_def q')
  assume none: "FLATTEN_CACHE st (cacheKey spec src) = None"
  from q show "p_timeoutMs (promises st1 h) = t"
    by (auto simp: query_miss [OF none])
qed

theorem cacheKey_ignores_timeout_and_flat_witness:
  "let spec = \<lparr>name = ''AS-FOO'', flat = Some True, depth = Some 2, sources = None\<rparr>;
       first = queryBgpq4ExpandedASNsCached spec 20000 (Some '' RADB '') initial_state
   in cacheKey spec (Some '' RADB '') = ''AS-FOO|2|RADB''
      \<and> cacheKey (spec\<lparr>flat := None\<rparr>) (Some ''RADB'') = ''AS-FOO|2|RADB''
      \<and> first = (0, snd first)
      \<and> queryBgpq4ExpandedASNsCached (spec\<lparr>flat := None\<rparr>) 1 (Some ''RADB'') (snd first) = first
      \<and> p_timeoutMs (promises (snd first) 0) = 20000"
proof -
  let ?spec = "\<lparr>name = ''AS-FOO'', flat = Some True, depth = Some 2, sources = None\<rparr>"
  let ?first = "queryBgpq4ExpandedASNsCached ?spec 20000 (Some '' RADB '') initial_state"
  have tr: "trim '' RADB '' = ''RADB''" "trim ''RADB'' = ''RADB''"
    by (simp_all add: trim_def trimEnd_def trimStart_def isWhiteSpace_def)
  have k: "cacheKey ?spec (Some '' RADB '') = ''AS-FOO|2|RADB''"
    by (simp add: cacheKey_def tr String_num_def digits.simps digit_char_def)
  have none: "FLATTEN_CACHE initial_state (cacheKey ?spec (Some '' RADB '')) = None"
    by (simp add: initial_state_def)
  have f: "?first = (0, snd ?first)"
    unfolding query_miss [OF none] by (simp add: initial_state_def)
  from cacheKey_ignores_timeout_and_flat [of "?spec\<lparr>flat := None\<rparr>" ?spec "Some ''RADB''" "Some '' RADB ''"
      20000 initial_state 1] f none k
  have "cacheKey (?spec\<lparr>flat := None\<rparr>) (Some ''RADB'') = ''AS-FOO|2|RADB''
      \<and> queryBgpq4ExpandedASNsCached (?spec\<lparr>flat := None\<rparr>) 1 (Some ''RADB'') (snd ?first) = (0, snd ?first)
      \<and> p_timeoutMs (promises (snd ?first) 0) = 20000"
    by (simp add: tr)
  with k f show ?thesis by (simp add: Let_def)
qed



subsection \<open>Awaited queries\<close>

lemma awaitCached_success:
  assumes inv: "cache_inv st" and a: "awaitCached w spec t src st = (Inr asns, st')"
  shows "\<exists>h. FLATTEN_CACHE st' (cacheKey spec src) = Some h \<and> p_state (promises st' h) = Fulfilled asns"
proof -
  obtain h st1 where q: "queryBgpq4ExpandedASNsCached spec t src st = (h, st1)"
    by (cases "queryBgpq4ExpandedASNsCached spec t src st")
  have inv1: "cache_inv st1" using cache_inv_query [OF inv, of spec t src] q by simp
  have c1: "FLATTEN_CACHE st1 (cacheKey spec src) = Some h" by (rule query_cached_after [OF q])
  have lt: "h < invocations st1" by (rule cache_inv_allocated [OF inv1 c1])
  from a q have aw: "await w h st1 = (Inr asns, st')" by (simp add: awaitCached_def)
  show ?thesis
  proof (cases "p_state (promises st1 h)")
    case Pending
    let ?outcome = "w h (queryBgpq4ExpandedASNs_args (p_spec (promises st1 h)) (p_sourcesArg (promises st1 h)))
                      (p_timeoutMs (promises st1 h))"
    from aw Pending have r: "queryBgpq4ExpandedASNs_result (p_spec (promises st1 h)) ?outcome = Inr asns"
      and s: "st' = settle h ?outcome st1"
      by (simp_all add: await_def Let_def)
    show ?thesis unfolding s settle_success [OF lt Pending r] using c1 by simp
  next
    case (Fulfilled v)
    with aw c1 show ?thesis by (auto simp: await_def)
  next
    case (Rejected e)
    with aw show ?thesis by (simp add: await_def)
  qed
qed

lemma awaitCached_memo:
  assumes "FLATTEN_CACHE st (cacheKey spec src) = Some h" "p_state (promises st h) = Fulfilled asns"
  shows "awaitCached w spec t src st = (Inr asns, st)"
  using assms by (simp add: awaitCached_def query_hit await_def)

lemma cache_inv_awaitCached:
  assumes "cache_inv st"
  shows "cache_inv (snd (awaitCached w spec t src st))"
proof -
  obtain h st1 where q: "queryBgpq4ExpandedASNsCached spec t src st = (h, st1)"
    by (cases "queryBgpq4ExpandedASNsCached spec t src st")
  have inv1: "cache_inv st1" using cache_inv_query [OF assms, of spec t src] q by simp
  show ?thesis
    by (simp add: awaitCached_def q await_def Let_def inv1 cache_inv_settle split: promise_state.splits)
qed


section \<open>Properties of the resolver\<close>

text \<open>
  Claim C5. For a specification whose \<open>flat\<close> is false or unset, flatten returns exactly
  the one-element sequence of its name and leaves the state as it was, whatever the cached
  query does and whatever the options and sources are: the cached query, and with it the
  cache and the adapter, is not invoked.
\<close>

theorem flatten_not_flat:
  "flat spec = None \<or> flat spec = Some False \<Longrightarrow>
   flattenMemberWithBgpq4 query spec options srcs st = (Inr [name spec], st)"
  by (auto simp: flattenMemberWithBgpq4_def)


theorem flatten_not_flat_witness:
  "flattenMemberWithBgpq4 (awaitCached (\<lambda>h args t. ExecFailed ''unreachable''))
     \<lparr>name = ''AS-BAR'', flat = None, depth = None, sources = None\<rparr>
     \<lparr>timeoutMs = None, onEmpty = Some OnEmpty_error\<rparr> (Some ''RADB'') initial_state
   = (Inr [''AS-BAR''], initial_state)"
  using flatten_not_flat [of "\<lparr>name = ''AS-BAR'', flat = None, depth = None, sources = None\<rparr>"
      "awaitCached (\<lambda>h args t. ExecFailed ''unreachable'')"
      "\<lparr>timeoutMs = None, onEmpty = Some OnEmpty_error\<rparr>" "Some ''RADB''" initial_state]
  by simp

lemma flatten_flat:
  assumes "flat spec = Some True"
  shows "flattenMemberWithBgpq4 query spec options srcs st =
           (case query spec (timeout_of options) srcs st of
              (Inl err, st1) \<Rightarrow> (Inl err, st1)
            | (Inr asns, st1) \<Rightarrow>
                if asns \<noteq> [] then (Inr asns, st1)
                else after_retry spec options
                       (if truthy srcs then query spec (timeout_of options) None st1
                        else (Inr [], st1)))"
  using assms
  by (simp add: flattenMemberWithBgpq4_def timeout_of_def after_retry_def empty_policy_def Let_def
      split: prod.splits sum.splits option.splits on_empty.splits)

lemma flatten_primary_empty:
  assumes "flat spec = Some True"
    and "query spec (timeout_of options) srcs st = (Inr [], st1)"
  shows "flattenMemberWithBgpq4 query spec options srcs st =
           after_retry spec options
             (if truthy srcs then query spec (timeout_of options) None st1 else (Inr [], st1))"
  by (simp add: flatten_flat [OF assms(1)] assms(2))

lemma after_retry_empty: "after_retry spec options (Inr [], st) = (empty_policy spec options, st)"
  by (simp add: after_retry_def)

text \<open>The equations that evaluate the cache and the resolver on concrete inputs.\<close>

lemmas cache_eval =
  awaitCached_def queryBgpq4ExpandedASNsCached_def await_def settle_def initial_state_def
  cacheKey_def promise_key_def queryBgpq4ExpandedASNs_args_def queryBgpq4ExpandedASNs_result_def bucket_of_def expanded_asns_def
  getprop_def Object_keys_def isArrayIndex_def isDigit_def index_value_def
  sanitizeListName_def isWordChar_def trim_def trimStart_def trimEnd_def
  isWhiteSpace_def String_num_def digits.simps digit_char_def DEFAULT_BGPQ4_HOST_def Let_def

lemmas resolver_eval =
  flattenMemberWithBgpq4_def resolveMembers_def effective_sources_def truthy_def
  Array_from_Set_def

text \<open>
  Claim C4. For a flat specification whose queries all come back empty (the primary one
  and, when a non-empty sources string was given, the retry without sources), flatten is
  decided by the \<open>onEmpty\<close> option alone: \<open>keep\<close>, which is also the default, returns the
  one-element sequence of the name; \<open>empty\<close> returns the empty sequence; \<open>error\<close> raises
  the empty-expansion error, whose message names the member.
\<close>

theorem flatten_empty_policy:
  assumes "flat spec = Some True"
    and "query spec (timeout_of options) srcs st = (Inr [], st1)"
    and "truthy srcs \<longrightarrow> query spec (timeout_of options) None st1 = (Inr [], st2)"
    and "\<not> truthy srcs \<longrightarrow> st2 = st1"
  shows "flattenMemberWithBgpq4 query spec options srcs st =
           ((case onEmpty options of
               None \<Rightarrow> Inr [name spec]
             | Some OnEmpty_keep \<Rightarrow> Inr [name spec]
             | Some OnEmpty_empty \<Rightarrow> Inr []
             | Some OnEmpty_error \<Rightarrow>
                 Inl (EmptyExpansionError (''bgpq4 returned empty expansion for '' @ name spec))),
            st2)"
proof (cases "truthy srcs")
  case True
  with assms(3) have "query spec (timeout_of options) None st1 = (Inr [], st2)" by simp
  with True show ?thesis
    by (simp add: flatten_primary_empty [where query = query, OF assms(1,2)] after_retry_empty empty_policy_def)
next
  case False
  with assms(4) have "st2 = st1" by simp
  with False show ?thesis
    by (simp add: flatten_primary_empty [where query = query, OF assms(1,2)] after_retry_empty empty_policy_def)
qed

theorem flatten_empty_policy_witness:
  "let w = (\<lambda>h args t. StdoutJSON (JObj [(''AS_X'', JArr [])]));
       spec = \<lparr>name = ''AS-X'', flat = Some True, depth = None, sources = None\<rparr>;
       run_with = (\<lambda>pol. fst (flattenMemberWithBgpq4 (awaitCached w) spec
                               \<lparr>timeoutMs = None, onEmpty = pol\<rparr> (Some ''RADB'') initial_state))
   in run_with None = Inr [''AS-X'']
      \<and> run_with (Some OnEmpty_keep) = Inr [''AS-X'']
      \<and> run_with (Some OnEmpty_empty) = Inr []
      \<and> run_with (Some OnEmpty_error)
          = Inl (EmptyExpansionError ''bgpq4 returned empty expansion for AS-X'')"
proof -
  let ?w = "\<lambda>(h::nat) (args::string list) (t::int). StdoutJSON (JObj [(''AS_X'', JArr [])])"
  let ?spec = "\<lparr>name = ''AS-X'', flat = Some True, depth = None, sources = None\<rparr>"
  let ?primary = "awaitCached ?w ?spec 20000 (Some ''RADB'') initial_state"
  let ?retry = "awaitCached ?w ?spec 20000 None (snd ?primary)"
  have "fst ?primary = Inr []" by (simp add: cache_eval)
  then have p: "?primary = (Inr [], snd ?primary)" by (simp add: prod_eq_iff)
  have "fst ?retry = Inr []" by (simp add: cache_eval)
  then have r: "truthy (Some ''RADB'') \<longrightarrow> ?retry = (Inr [], snd ?retry)" by (simp add: prod_eq_iff)
  have n: "\<not> truthy (Some ''RADB'') \<longrightarrow> snd ?retry = snd ?primary" by (simp add: truthy_def)
  have f: "flat ?spec = Some True" by simp
  have t: "timeout_of \<lparr>timeoutMs = None, onEmpty = pol\<rparr> = 20000" for pol
    by (simp add: timeout_of_def)
  have pol: "fst (flattenMemberWithBgpq4 (awaitCached ?w) ?spec \<lparr>timeoutMs = None, onEmpty = pol\<rparr>
                    (Some ''RADB'') initial_state)
             = (case pol of
                  None \<Rightarrow> Inr [''AS-X'']
                | Some OnEmpty_keep \<Rightarrow> Inr [''AS-X'']
                | Some OnEmpty_empty \<Rightarrow> Inr []
                | Some OnEmpty_error \<Rightarrow>
                    Inl (EmptyExpansionError ''bgpq4 returned empty expansion for AS-X''))" for pol
    using flatten_empty_policy [where query = "awaitCached ?w" and spec = ?spec
        and options = "\<lparr>timeoutMs = None, onEmpty = pol\<rparr>"
        and srcs = "Some ''RADB''" and st = initial_state and ?st1.0 = "snd ?primary"
        and ?st2.0 = "snd ?retry", OF f] p r n
    by (simp add: t split: option.splits on_empty.splits)
  show ?thesis
    unfolding Let_def pol by simp
qed

lemma falsy_same_key: "\<not> truthy srcs \<Longrightarrow> cacheKey spec srcs = cacheKey spec None"
  by (auto simp: truthy_def cacheKey_def trim_Nil split: option.splits)

text \<open>
  Claim C3. Let the primary cached query of a flat specification come back empty. If a
  sources override was supplied, the outcome of flatten is that of exactly one more cached
  query for the same member without sources, made in the state the primary query left: a
  non-empty result of that retry is returned, an error of it is raised, an empty result
  falls to the \<open>onEmpty\<close> policy. If no sources override was supplied, nothing more is
  queried: flatten ends in the state the primary query left, with the outcome of the
  policy. (For the empty string as override the code skips the second call; that call
  would find the entry of the primary query, whose key is the same, so the outcome and the
  state are those of the retry; lemma \<open>flatten_primary_empty\<close> gives the calls as they are
  made, for every cached-query procedure. The evaluation after the theorem is the example of the
  specification: \<open>SOURCEX\<close> yields nothing, the retry yields AS1 and AS2, and flatten
  returns AS1 and AS2 after two invocations.)
\<close>

theorem flatten_fallback:
  assumes "reachable st"
    and "flat spec = Some True"
    and "awaitCached w spec (timeout_of options) srcs st = (Inr [], st1)"
  shows "(srcs \<noteq> None \<longrightarrow>
            flattenMemberWithBgpq4 (awaitCached w) spec options srcs st =
              (case awaitCached w spec (timeout_of options) None st1 of
                 (Inl err, st2) \<Rightarrow> (Inl err, st2)
               | (Inr asnsFallback, st2) \<Rightarrow>
                   if asnsFallback \<noteq> [] then (Inr asnsFallback, st2)
                   else (empty_policy spec options, st2)))
       \<and> (srcs = None \<longrightarrow>
            flattenMemberWithBgpq4 (awaitCached w) spec options srcs st
              = (empty_policy spec options, st1))"
proof -
  note inv = reachable_inv [OF assms(1)]
  note prim = flatten_primary_empty [where query = "awaitCached w", OF assms(2,3)]
  have falsy: "awaitCached w spec (timeout_of options) None st1 = (Inr [], st1)" if "\<not> truthy srcs"
  proof -
    from awaitCached_success [OF inv assms(3)] obtain h
      where "FLATTEN_CACHE st1 (cacheKey spec srcs) = Some h" "p_state (promises st1 h) = Fulfilled []"
      by blast
    with falsy_same_key [OF that, of spec]
    show ?thesis by (simp add: awaitCached_memo)
  qed
  have "flattenMemberWithBgpq4 (awaitCached w) spec options srcs st =
          after_retry spec options (awaitCached w spec (timeout_of options) None st1)"
    using prim falsy by (cases "truthy srcs") simp_all
  moreover have "flattenMemberWithBgpq4 (awaitCached w) spec options srcs st
                   = (empty_policy spec options, st1)" if "srcs = None"
    using prim that by (simp add: truthy_def after_retry_empty)
  ultimately show ?thesis by (simp add: after_retry_def)
qed

theorem flatten_fallback_witness:
  "let w = (\<lambda>h args t. if ''-S'' \<in> set args
              then StdoutJSON (JObj [(''AS_X'', JArr [])])
              else StdoutJSON (JObj [(''AS_X'', JArr [JNum 1, JNum 2])]));
       spec = \<lparr>name = ''AS-X'', flat = Some True, depth = None, sources = None\<rparr>;
       r = flattenMemberWithBgpq4 (awaitCached w) spec \<lparr>timeoutMs = None, onEmpty = None\<rparr>
             (Some ''SOURCEX'') initial_state
   in fst r = Inr [''AS1'', ''AS2''] \<and> invocations (snd r) = 2"
proof -
  let ?w = "\<lambda>(h::nat) (args::string list) (t::int). if ''-S'' \<in> set args
              then StdoutJSON (JObj [(''AS_X'', JArr [])])
              else StdoutJSON (JObj [(''AS_X'', JArr [JNum 1, JNum 2])])"
  let ?spec = "\<lparr>name = ''AS-X'', flat = Some True, depth = None, sources = None\<rparr>"
  let ?options = "\<lparr>timeoutMs = None, onEmpty = None\<rparr>"
  let ?primary = "awaitCached ?w ?spec (timeout_of ?options) (Some ''SOURCEX'') initial_state"
  have "fst ?primary = Inr []"
    by (simp add: cache_eval timeout_of_def)
  then have p: "?primary = (Inr [], snd ?primary)"
    by (simp add: prod_eq_iff)
  have retry: "fst (awaitCached ?w ?spec (timeout_of ?options) None (snd ?primary)) = Inr [''AS1'', ''AS2'']"
    "invocations (snd (awaitCached ?w ?spec (timeout_of ?options) None (snd ?primary))) = 2"
    by (simp_all add: cache_eval timeout_of_def)
  have f: "flat ?spec = Some True" by simp
  from flatten_fallback [OF reachable_initial f p] retry
  show ?thesis by (simp add: Let_def split: prod.splits)
qed

lemma set_set_add_all: "set (set_add_all xs seen) = set seen \<union> set xs"
  by (induction xs arbitrary: seen) auto

lemma distinct_set_add_all: "distinct seen \<Longrightarrow> distinct (set_add_all xs seen)"
  by (induction xs arbitrary: seen) auto

lemma set_Array_from_Set: "set (Array_from_Set out) = set out"
  by (simp add: Array_from_Set_def set_set_add_all)

lemma distinct_Array_from_Set: "distinct (Array_from_Set out)"
  by (simp add: Array_from_Set_def distinct_set_add_all)

lemma resolve_loop_Cons:
  "resolve_loop query options srcs (spec # rest) out st =
     (case flattenMemberWithBgpq4 query spec options (effective_sources spec srcs) st of
        (Inl err, st1) \<Rightarrow> (Inl err, st1)
      | (Inr resolved, st1) \<Rightarrow> resolve_loop query options srcs rest (out @ resolved) st1)"
  by (simp add: effective_sources_def)

lemma resolve_loop_all_succeed:
  assumes "flatten_each query options srcs specs st = (rs, st')"
    and "\<forall>r \<in> set rs. \<not> isl r"
  shows "resolve_loop query options srcs specs out st = (Inr (out @ concat (map projr rs)), st')"
  using assms
proof (induction specs arbitrary: st rs out st')
  case Nil
  then show ?case by simp
next
  case (Cons spec rest)
  obtain r st1 where f: "flattenMemberWithBgpq4 query spec options (effective_sources spec srcs) st = (r, st1)"
    by (cases "flattenMemberWithBgpq4 query spec options (effective_sources spec srcs) st")
  obtain rs' st2 where e: "flatten_each query options srcs rest st1 = (rs', st2)"
    by (cases "flatten_each query options srcs rest st1")
  from Cons.prems(1) f e have rs: "rs = r # rs'" and st': "st' = st2" by simp_all
  from Cons.prems(2) rs obtain resolved where r: "r = Inr resolved"
    by (cases r) auto
  from Cons.prems(2) rs have "\<forall>r \<in> set rs'. \<not> isl r" by simp
  from Cons.IH [OF e this, of "out @ resolved"]
  show ?case unfolding resolve_loop_Cons by (simp add: f r rs st')
qed

lemma resolve_loop_some_fails:
  assumes "flatten_each query options srcs specs st = (rs, st')"
    and "\<exists>r \<in> set rs. isl r"
  shows "isl (fst (resolve_loop query options srcs specs out st))"
  using assms
proof (induction specs arbitrary: st rs out st')
  case Nil
  then show ?case by simp
next
  case (Cons spec rest)
  obtain r st1 where f: "flattenMemberWithBgpq4 query spec options (effective_sources spec srcs) st = (r, st1)"
    by (cases "flattenMemberWithBgpq4 query spec options (effective_sources spec srcs) st")
  obtain rs' st2 where e: "flatten_each query options srcs rest st1 = (rs', st2)"
    by (cases "flatten_each query options srcs rest st1")
  from Cons.prems(1) f e have rs: "rs = r # rs'" by simp
  show ?case
  proof (cases r)
    case (Inl err)
    then show ?thesis unfolding resolve_loop_Cons by (simp add: f)
  next
    case (Inr resolved)
    with Cons.prems(2) rs have "\<exists>r \<in> set rs'. isl r" by simp
    from Cons.IH [OF e this, of "out @ resolved"]
    show ?thesis unfolding resolve_loop_Cons by (simp add: f Inr)
  qed
qed

text \<open>
  For every cached-query procedure: if flatten succeeds for each specification in turn,
  resolve returns the duplicate-free union of the results; if one fails, resolve fails.
\<close>

lemma resolve_union_any_query:
  assumes "flatten_each query options srcs specs st = (rs, st')"
  shows "((\<forall>r \<in> set rs. \<not> isl r) \<longrightarrow>
            (\<exists>out. resolveMembers query specs options srcs st = (Inr out, st')
                 \<and> set out = (\<Union>r \<in> set rs. set (projr r)) \<and> distinct out))
       \<and> ((\<exists>r \<in> set rs. isl r) \<longrightarrow> isl (fst (resolveMembers query specs options srcs st)))"
proof (intro conjI impI)
  assume ok: "\<forall>r \<in> set rs. \<not> isl r"
  have "resolveMembers query specs options srcs st
          = (Inr (Array_from_Set (concat (map projr rs))), st')"
    by (simp add: resolveMembers_def resolve_loop_all_succeed [OF assms ok, of "[]"])
  moreover have "set (Array_from_Set (concat (map projr rs))) = (\<Union>r \<in> set rs. set (projr r))"
    by (simp add: set_Array_from_Set)
  ultimately show "\<exists>out. resolveMembers query specs options srcs st = (Inr out, st')
                 \<and> set out = (\<Union>r \<in> set rs. set (projr r)) \<and> distinct out"
    using distinct_Array_from_Set by blast
next
  assume "\<exists>r \<in> set rs. isl r"
  from resolve_loop_some_fails [OF assms this, of "[]"]
  show "isl (fst (resolveMembers query specs options srcs st))"
    by (cases "resolve_loop query options srcs specs [] st")
      (auto simp: resolveMembers_def split: sum.splits)
qed

subsection \<open>The resolver's effect on the cache is a history; its results are memoized\<close>

lemma run_append: "run st (xs @ ys) = run (run st xs) ys"
  by (simp add: run_def)

lemma snd_await:
  "snd (await w h st) =
     settle h (w h (queryBgpq4ExpandedASNs_args (p_spec (promises st h)) (p_sourcesArg (promises st h)))
                 (p_timeoutMs (promises st h))) st"
  by (cases "p_state (promises st h)") (simp_all add: await_def Let_def settle_noop)

lemma awaitCached_is_run: "\<exists>evs. snd (awaitCached w spec t src st) = run st evs"
proof -
  obtain h st1 where q: "queryBgpq4ExpandedASNsCached spec t src st = (h, st1)"
    by (cases "queryBgpq4ExpandedASNsCached spec t src st")
  then have st1: "st1 = step st (Query spec t src)" by simp
  let ?outcome = "w h (queryBgpq4ExpandedASNs_args (p_spec (promises st1 h)) (p_sourcesArg (promises st1 h)))
                     (p_timeoutMs (promises st1 h))"
  have "snd (awaitCached w spec t src st) = run st [Query spec t src, Complete h ?outcome]"
    by (simp add: awaitCached_def q snd_await run_Cons run_Nil st1 [symmetric])
  then show ?thesis by blast
qed

lemma flatten_is_run:
  "\<exists>evs. snd (flattenMemberWithBgpq4 (awaitCached w) spec options srcs st) = run st evs"
proof (cases "flat spec = Some True")
  case False
  then have "snd (flattenMemberWithBgpq4 (awaitCached w) spec options srcs st) = run st []"
    by (simp add: flattenMemberWithBgpq4_def run_Nil)
  then show ?thesis by blast
next
  case True
  obtain r1 s1 where p: "awaitCached w spec (timeout_of options) srcs st = (r1, s1)"
    by (cases "awaitCached w spec (timeout_of options) srcs st")
  from awaitCached_is_run [of w spec "timeout_of options" srcs st] p
  obtain evs1 where s1: "s1 = run st evs1" by auto
  obtain r2 s2 where r: "awaitCached w spec (timeout_of options) None s1 = (r2, s2)"
    by (cases "awaitCached w spec (timeout_of options) None s1")
  from awaitCached_is_run [of w spec "timeout_of options" None s1] r
  obtain evs2 where s2: "s2 = run st (evs1 @ evs2)" by (auto simp: run_append s1)
  have "snd (flattenMemberWithBgpq4 (awaitCached w) spec options srcs st) = s1
        \<or> snd (flattenMemberWithBgpq4 (awaitCached w) spec options srcs st) = s2"
    by (auto simp: flatten_flat [OF True] p r after_retry_def split: sum.splits)
  with s1 s2 show ?thesis by blast
qed

lemma flatten_each_is_run:
  "\<exists>evs. snd (flatten_each (awaitCached w) options srcs specs st) = run st evs"
proof (induction specs arbitrary: st)
  case Nil
  have "snd (flatten_each (awaitCached w) options srcs [] st) = run st []"
    by (simp add: run_Nil)
  then show ?case by blast
next
  case (Cons spec rest)
  obtain r st1 where f: "flattenMemberWithBgpq4 (awaitCached w) spec options
                           (effective_sources spec srcs) st = (r, st1)"
    by (cases "flattenMemberWithBgpq4 (awaitCached w) spec options (effective_sources spec srcs) st")
  from flatten_is_run [of w spec options "effective_sources spec srcs" st] f
  obtain evs1 where st1: "st1 = run st evs1" by auto
  from Cons.IH [of st1] obtain evs2
    where "snd (flatten_each (awaitCached w) options srcs rest st1) = run st1 evs2" by blast
  then have "snd (flatten_each (awaitCached w) options srcs (spec # rest) st) = run st (evs1 @ evs2)"
    by (auto simp: f st1 run_append split: prod.splits)
  then show ?case by blast
qed

text \<open>A successful flatten is memoized: later, in any state a history leads to, it is a lookup.\<close>

lemma flatten_stable:
  assumes inv: "cache_inv st"
    and f: "flattenMemberWithBgpq4 (awaitCached w) spec options srcs st = (Inr r, st1)"
  shows "flattenMemberWithBgpq4 (awaitCached w2) spec options srcs (run st1 evs)
           = (Inr r, run st1 evs)"
proof (cases "flat spec = Some True")
  case False
  with f show ?thesis by (simp add: flattenMemberWithBgpq4_def)
next
  case True
  let ?T = "timeout_of options"
  obtain r1 s1 where p: "awaitCached w spec ?T srcs st = (r1, s1)"
    by (cases "awaitCached w spec ?T srcs st")
  from f p obtain a where r1: "r1 = Inr a"
    by (cases r1) (auto simp: flatten_flat [OF True])
  have inv1: "cache_inv s1" using cache_inv_awaitCached [OF inv, of w spec ?T srcs] p by simp
  from awaitCached_success [OF inv p [unfolded r1]] obtain h1
    where c1: "FLATTEN_CACHE s1 (cacheKey spec srcs) = Some h1"
      and f1: "p_state (promises s1 h1) = Fulfilled a" by blast
  have memo1: "awaitCached w2 spec ?T srcs (run s1 evs') = (Inr a, run s1 evs')" for evs'
    using run_keeps_fulfilled [OF inv1 c1 f1, of evs'] by (simp add: awaitCached_memo)
  show ?thesis
  proof (cases "a \<noteq> [] \<or> \<not> truthy srcs")
    case True
    with f p r1 \<open>flat spec = Some True\<close> have "st1 = s1"
      and r: "(if a \<noteq> [] then Inr a else empty_policy spec options) = Inr r"
      by (auto simp: flatten_flat after_retry_def split: if_splits)
    with True show ?thesis
      by (auto simp: flatten_flat [OF \<open>flat spec = Some True\<close>] memo1 after_retry_def)
  next
    case False
    then have a: "a = []" and t: "truthy srcs" by simp_all
    obtain r2 s2 where q: "awaitCached w spec ?T None s1 = (r2, s2)"
      by (cases "awaitCached w spec ?T None s1")
    from f p r1 a t q \<open>flat spec = Some True\<close>
    have ar: "after_retry spec options (r2, s2) = (Inr r, st1)"
      by (simp add: flatten_flat)
    then obtain fb where r2: "r2 = Inr fb" and st1: "st1 = s2"
      and res: "(if fb \<noteq> [] then Inr fb else empty_policy spec options) = Inr r"
      by (cases r2) (auto simp: after_retry_def split: if_splits)
    from awaitCached_is_run [of w spec ?T None s1] q obtain evs2 where s2: "s2 = run s1 evs2"
      by auto
    have inv2: "cache_inv s2" using cache_inv_awaitCached [OF inv1, of w spec ?T None] q by simp
    from awaitCached_success [OF inv1 q [unfolded r2]] obtain h2
      where c2: "FLATTEN_CACHE s2 (cacheKey spec None) = Some h2"
        and f2: "p_state (promises s2 h2) = Fulfilled fb" by blast
    have memo2: "awaitCached w2 spec ?T None (run s2 evs) = (Inr fb, run s2 evs)"
      using run_keeps_fulfilled [OF inv2 c2 f2, of evs] by (simp add: awaitCached_memo)
    have "awaitCached w2 spec ?T srcs (run s2 evs) = (Inr [], run s2 evs)"
      using memo1 [of "evs2 @ evs"] by (simp add: run_append s2 a)
    with memo2 res t show ?thesis
      by (auto simp: flatten_flat [OF \<open>flat spec = Some True\<close>] st1 after_retry_def
          split: if_splits)
  qed
qed

lemma cache_inv_flatten:
  assumes "cache_inv st"
  shows "cache_inv (snd (flattenMemberWithBgpq4 (awaitCached w) spec options srcs st))"
proof -
  from flatten_is_run [of w spec options srcs st] obtain evs
    where "snd (flattenMemberWithBgpq4 (awaitCached w) spec options srcs st) = run st evs" by blast
  with cache_inv_run [OF assms, of evs] show ?thesis by simp
qed

lemma flatten_each_stable:
  assumes "cache_inv st"
    and "flatten_each (awaitCached w) options srcs specs st = (rs, st')"
    and "\<forall>r \<in> set rs. \<not> isl r"
  shows "length rs = length specs
       \<and> (\<forall>i < length specs.
            flattenMemberWithBgpq4 (awaitCached w2) (specs ! i) options
              (effective_sources (specs ! i) srcs) (run st' evs) = (rs ! i, run st' evs))"
  using assms
proof (induction specs arbitrary: st rs)
  case Nil
  then show ?case by auto
next
  case (Cons spec rest)
  obtain r st1 where f: "flattenMemberWithBgpq4 (awaitCached w) spec options
                           (effective_sources spec srcs) st = (r, st1)"
    by (cases "flattenMemberWithBgpq4 (awaitCached w) spec options (effective_sources spec srcs) st")
  obtain rs' st2 where e: "flatten_each (awaitCached w) options srcs rest st1 = (rs', st2)"
    by (cases "flatten_each (awaitCached w) options srcs rest st1")
  from Cons.prems(2) f e have rs: "rs = r # rs'" and st': "st' = st2" by simp_all
  from Cons.prems(3) rs obtain x where r: "r = Inr x" by (cases r) auto
  from Cons.prems(3) rs have ok: "\<forall>r \<in> set rs'. \<not> isl r" by simp
  have inv1: "cache_inv st1"
    using cache_inv_flatten [OF Cons.prems(1), of w spec options "effective_sources spec srcs"] f
    by simp
  from flatten_each_is_run [of w options srcs rest st1] e st'
  obtain evs1 where run1: "st' = run st1 evs1" by auto
  have head: "flattenMemberWithBgpq4 (awaitCached w2) spec options
                (effective_sources spec srcs) (run st' evs) = (r, run st' evs)"
    using flatten_stable [OF Cons.prems(1) f [unfolded r], of w2 "evs1 @ evs"]
    by (simp add: run_append run1 r)
  note tail = Cons.IH [OF inv1 e [folded st'] ok]
  show ?case
  proof (intro conjI allI impI)
    show "length rs = length (spec # rest)" using tail rs by simp
    fix i assume "i < length (spec # rest)"
    then show "flattenMemberWithBgpq4 (awaitCached w2) ((spec # rest) ! i) options
              (effective_sources ((spec # rest) ! i) srcs) (run st' evs) = (rs ! i, run st' evs)"
      using head tail rs by (cases i) simp_all
  qed
qed

lemma resolve_loop_success:
  assumes "resolve_loop query options srcs specs out0 st = (Inr out1, st')"
  shows "\<exists>rs. flatten_each query options srcs specs st = (map Inr rs, st')
              \<and> out1 = out0 @ concat rs"
  using assms
proof (induction specs arbitrary: out0 st)
  case Nil
  then show ?case by simp
next
  case (Cons spec rest)
  obtain r st1 where f: "flattenMemberWithBgpq4 query spec options (effective_sources spec srcs) st
                           = (r, st1)"
    by (cases "flattenMemberWithBgpq4 query spec options (effective_sources spec srcs) st")
  from Cons.prems f obtain x where r: "r = Inr x"
    and l: "resolve_loop query options srcs rest (out0 @ x) st1 = (Inr out1, st')"
    unfolding resolve_loop_Cons by (cases r) auto
  from Cons.IH [OF l] obtain rs
    where "flatten_each query options srcs rest st1 = (map Inr rs, st')"
      and "out1 = (out0 @ x) @ concat rs" by blast
  then have "flatten_each query options srcs (spec # rest) st = (map Inr (x # rs), st')
             \<and> out1 = out0 @ concat (x # rs)"
    by (simp add: f r)
  then show ?case by blast
qed

text \<open>
  Claim C6. When resolve returns a sequence, that sequence has no duplicates, and its set
  of elements is the union of the sets that flatten returns for the individual
  specifications, each with its own sources override or else the default sources. This
  holds for the results flatten gives during the run, one specification after the other
  in input order, and equally for the results of flatten computed for each specification
  on its own in the state the run leaves, where every expansion of the run is in the
  cache, so that flatten neither starts a process nor changes the state, whatever the
  external tool would answer then.
\<close>

theorem resolve_is_union_of_flatten:
  assumes "reachable st"
    and "resolveMembers (awaitCached w) specs options srcs st = (Inr out, st')"
  shows "distinct out
       \<and> (\<exists>rs. flatten_each (awaitCached w) options srcs specs st = (map Inr rs, st')
              \<and> set out = (\<Union>r \<in> set rs. set r))
       \<and> set out = (\<Union>spec \<in> set specs.
            set (projr (fst (flattenMemberWithBgpq4 (awaitCached w2) spec options
                               (effective_sources spec srcs) st'))))
       \<and> (\<forall>spec \<in> set specs.
            snd (flattenMemberWithBgpq4 (awaitCached w2) spec options
                   (effective_sources spec srcs) st') = st')"
proof -
  from assms(2) obtain out1 where l: "resolve_loop (awaitCached w) options srcs specs [] st = (Inr out1, st')"
    and out: "out = Array_from_Set out1"
    by (auto simp: resolveMembers_def split: prod.splits sum.splits)
  from resolve_loop_success [OF l] obtain rs
    where e: "flatten_each (awaitCached w) options srcs specs st = (map Inr rs, st')"
      and out1: "out1 = concat rs" by auto
  have set_out: "set out = (\<Union>r \<in> set rs. set r)"
    by (simp add: out out1 set_Array_from_Set)
  have ok: "\<forall>r \<in> set (map Inr rs :: (error + string list) list). \<not> isl r" by simp
  from flatten_each_stable [OF reachable_inv [OF assms(1)] e ok, of w2 "[]"]
  have len: "length rs = length specs"
    and nth: "\<And>i. i < length specs \<Longrightarrow>
            flattenMemberWithBgpq4 (awaitCached w2) (specs ! i) options
              (effective_sources (specs ! i) srcs) st' = (Inr (rs ! i), st')"
    by (simp_all add: run_Nil)
  have each: "\<exists>i < length specs. spec = specs ! i" if "spec \<in> set specs" for spec
    using that by (auto simp: in_set_conv_nth)
  let ?F = "\<lambda>spec. fst (flattenMemberWithBgpq4 (awaitCached w2) spec options
                            (effective_sources spec srcs) st')"
  have m: "map ?F specs = map Inr rs"
    by (rule nth_equalityI) (simp_all add: len nth)
  from arg_cong [OF m, of set] have img: "?F ` set specs = Inr ` set rs" by simp
  have "(\<Union>spec \<in> set specs. set (projr (?F spec))) = (\<Union>x \<in> ?F ` set specs. set (projr x))"
    by (simp only: image_image)
  also have "\<dots> = (\<Union>r \<in> set rs. set r)"
    unfolding img by (simp add: image_image)
  finally have u: "set out = (\<Union>spec \<in> set specs. set (projr (?F spec)))"
    using set_out by simp
  have s: "\<forall>spec \<in> set specs.
            snd (flattenMemberWithBgpq4 (awaitCached w2) spec options
                   (effective_sources spec srcs) st') = st'"
  proof
    fix spec assume "spec \<in> set specs"
    from each [OF this] obtain i where "i < length specs" "spec = specs ! i" by blast
    with nth [of i] show "snd (flattenMemberWithBgpq4 (awaitCached w2) spec options
                   (effective_sources spec srcs) st') = st'" by simp
  qed
  from e set_out u s show ?thesis
    by (auto simp: out distinct_Array_from_Set)
qed

theorem resolve_is_union_of_flatten_witness:
  "let w = (\<lambda>h args t. if last args = ''AS-FOO''
              then StdoutJSON (JObj [(''AS_FOO'', JArr [JNum 100, JNum 200])])
              else StdoutJSON (JObj [(''AS_BAZ'', JArr [JNum 200, JNum 300])]));
       offline = (\<lambda>h args t. ExecFailed ''bgpq4 failed (exit unknown): spawn bgpq4 ENOENT'');
       specs = [\<lparr>name = ''AS-FOO'', flat = Some True, depth = Some 1, sources = None\<rparr>,
                \<lparr>name = ''AS-BAR'', flat = None, depth = None, sources = None\<rparr>,
                \<lparr>name = ''AS-BAZ'', flat = Some True, depth = None, sources = Some ''ARIN''\<rparr>];
       options = \<lparr>timeoutMs = None, onEmpty = None\<rparr>;
       r = resolveMembers (awaitCached w) specs options (Some ''RADB'') initial_state
   in fst r = Inr [''AS100'', ''AS200'', ''AS-BAR'', ''AS300'']
      \<and> (\<Union>spec \<in> set specs.
            set (projr (fst (flattenMemberWithBgpq4 (awaitCached offline) spec options
                               (effective_sources spec (Some ''RADB'')) (snd r)))))
          = {''AS100'', ''AS200'', ''AS-BAR'', ''AS300''}"
proof -
  let ?w = "\<lambda>(h::nat) (args::string list) (t::int). if last args = ''AS-FOO''
              then StdoutJSON (JObj [(''AS_FOO'', JArr [JNum 100, JNum 200])])
              else StdoutJSON (JObj [(''AS_BAZ'', JArr [JNum 200, JNum 300])])"
  let ?offline = "\<lambda>(h::nat) (args::string list) (t::int).
                    ExecFailed ''bgpq4 failed (exit unknown): spawn bgpq4 ENOENT''"
  let ?specs = "[\<lparr>name = ''AS-FOO'', flat = Some True, depth = Some 1, sources = None\<rparr>,
                \<lparr>name = ''AS-BAR'', flat = None, depth = None, sources = None\<rparr>,
                \<lparr>name = ''AS-BAZ'', flat = Some True, depth = None, sources = Some ''ARIN''\<rparr>]"
  let ?options = "\<lparr>timeoutMs = None, onEmpty = None\<rparr>"
  let ?r = "resolveMembers (awaitCached ?w) ?specs ?options (Some ''RADB'') initial_state"
  have out: "fst ?r = Inr [''AS100'', ''AS200'', ''AS-BAR'', ''AS300'']"
    by (simp add: cache_eval resolver_eval split: prod.splits)
  then have r: "?r = (Inr [''AS100'', ''AS200'', ''AS-BAR'', ''AS300''], snd ?r)"
    by (simp add: prod_eq_iff)
  from resolve_is_union_of_flatten [OF reachable_initial r, of ?offline]
  have "set [''AS100'', ''AS200'', ''AS-BAR'', ''AS300'']
          = (\<Union>spec \<in> set ?specs.
               set (projr (fst (flattenMemberWithBgpq4 (awaitCached ?offline) spec ?options
                                  (effective_sources spec (Some ''RADB'')) (snd ?r)))))"
    by blast
  with out show ?thesis
    unfolding Let_def by simp
qed

lemma resolve_loop_append:
  "resolve_loop query options srcs (xs @ ys) out st =
     (case resolve_loop query options srcs xs out st of
        (Inl err, st1) \<Rightarrow> (Inl err, st1)
      | (Inr out1, st1) \<Rightarrow> resolve_loop query options srcs ys out1 st1)"
  by (induction xs arbitrary: out st) (simp_all split: prod.splits sum.splits)

lemma resolve_loop_is_run:
  "\<exists>evs. snd (resolve_loop (awaitCached w) options srcs specs out st) = run st evs"
proof (induction specs arbitrary: out st)
  case Nil
  have "snd (resolve_loop (awaitCached w) options srcs [] out st) = run st []"
    by (simp add: run_Nil)
  then show ?case by blast
next
  case (Cons spec rest)
  obtain r st1 where f: "flattenMemberWithBgpq4 (awaitCached w) spec options
                           (effective_sources spec srcs) st = (r, st1)"
    by (cases "flattenMemberWithBgpq4 (awaitCached w) spec options (effective_sources spec srcs) st")
  from flatten_is_run [of w spec options "effective_sources spec srcs" st] f
  obtain evs1 where st1: "st1 = run st evs1" by auto
  show ?case
  proof (cases r)
    case (Inl err)
    then have "snd (resolve_loop (awaitCached w) options srcs (spec # rest) out st) = run st evs1"
      unfolding resolve_loop_Cons by (simp add: f st1)
    then show ?thesis by blast
  next
    case (Inr resolved)
    from Cons.IH [of "out @ resolved" st1] obtain evs2
      where "snd (resolve_loop (awaitCached w) options srcs rest (out @ resolved) st1) = run st1 evs2"
      by blast
    then have "snd (resolve_loop (awaitCached w) options srcs (spec # rest) out st)
                 = run st (evs1 @ evs2)"
      unfolding resolve_loop_Cons by (simp add: f Inr st1 run_append)
    then show ?thesis by blast
  qed
qed

text \<open>The resolver keeps the cache within its reachable states.\<close>

lemma reachable_flatten:
  assumes "reachable st"
  shows "reachable (snd (flattenMemberWithBgpq4 (awaitCached w) spec options srcs st))"
proof -
  from flatten_is_run [of w spec options srcs st] obtain evs
    where "snd (flattenMemberWithBgpq4 (awaitCached w) spec options srcs st) = run st evs" by blast
  with reachable_run [OF assms, of evs] show ?thesis by simp
qed

lemma reachable_resolve:
  assumes "reachable st"
  shows "reachable (snd (resolveMembers (awaitCached w) specs options srcs st))"
proof -
  from resolve_loop_is_run [of w options srcs specs "[]" st] obtain evs
    where "snd (resolve_loop (awaitCached w) options srcs specs [] st) = run st evs" by blast
  moreover have "snd (resolveMembers (awaitCached w) specs options srcs st)
                   = snd (resolve_loop (awaitCached w) options srcs specs [] st)"
    by (simp add: resolveMembers_def split: prod.splits sum.splits)
  ultimately show ?thesis using reachable_run [OF assms, of evs] by simp
qed

text \<open>
  Claim C7. Resolve processes the specifications in input order and fails fast: when the
  specifications before \<open>spec\<close> resolve and flatten raises \<open>err\<close> for \<open>spec\<close> in the state
  they left, resolve of the whole list raises the same \<open>err\<close> and ends in the state that
  this flatten left, whatever specifications follow: none of them is attempted, and no
  partial result is returned.
\<close>

theorem resolve_fails_fast:
  assumes "resolveMembers query pre options srcs st = (Inr out, st1)"
    and "flattenMemberWithBgpq4 query spec options (effective_sources spec srcs) st1 = (Inl err, st2)"
  shows "resolveMembers query (pre @ spec # post) options srcs st = (Inl err, st2)"
proof -
  from assms(1) obtain out0 where "resolve_loop query options srcs pre [] st = (Inr out0, st1)"
    by (auto simp: resolveMembers_def split: prod.splits sum.splits)
  then show ?thesis
    unfolding resolveMembers_def resolve_loop_append resolve_loop_Cons
    by (simp add: assms(2))
qed

theorem resolve_fails_fast_witness:
  "let w = (\<lambda>h args t. if last args = ''AS-B''
              then ExecFailed ''bgpq4 failed (exit 1): timeout''
              else StdoutJSON (JObj [(''AS_A'', JArr [JNum 1])]));
       specs = [\<lparr>name = ''AS-A'', flat = Some True, depth = None, sources = None\<rparr>,
                \<lparr>name = ''AS-B'', flat = Some True, depth = None, sources = None\<rparr>,
                \<lparr>name = ''AS-C'', flat = Some True, depth = None, sources = None\<rparr>];
       r = resolveMembers (awaitCached w) specs \<lparr>timeoutMs = None, onEmpty = None\<rparr>
             None initial_state
   in fst r = Inl (ExpansionFailure ''bgpq4 failed (exit 1): timeout'')
      \<and> invocations (snd r) = 2"
proof -
  let ?w = "\<lambda>(h::nat) (args::string list) (t::int). if last args = ''AS-B''
              then ExecFailed ''bgpq4 failed (exit 1): timeout''
              else StdoutJSON (JObj [(''AS_A'', JArr [JNum 1])])"
  let ?A = "\<lparr>name = ''AS-A'', flat = Some True, depth = None, sources = None\<rparr>"
  let ?B = "\<lparr>name = ''AS-B'', flat = Some True, depth = None, sources = None\<rparr>"
  let ?C = "\<lparr>name = ''AS-C'', flat = Some True, depth = None, sources = None\<rparr>"
  let ?options = "\<lparr>timeoutMs = None, onEmpty = None\<rparr>"
  let ?pre = "resolveMembers (awaitCached ?w) [?A] ?options None initial_state"
  let ?fail = "flattenMemberWithBgpq4 (awaitCached ?w) ?B ?options (effective_sources ?B None) (snd ?pre)"
  have "fst ?pre = Inr [''AS1'']"
    by (simp add: cache_eval resolver_eval split: prod.splits)
  then have p: "?pre = (Inr [''AS1''], snd ?pre)" by (simp add: prod_eq_iff)
  have "fst ?fail = Inl (ExpansionFailure ''bgpq4 failed (exit 1): timeout'')"
    by (simp add: cache_eval resolver_eval split: prod.splits)
  then have f: "?fail = (Inl (ExpansionFailure ''bgpq4 failed (exit 1): timeout''), snd ?fail)"
    by (simp add: prod_eq_iff)
  have n: "invocations (snd ?fail) = 2"
    by (simp add: cache_eval resolver_eval split: prod.splits)
  from resolve_fails_fast [OF p f, of "[?C]"] n
  show ?thesis by (simp add: Let_def)
qed

end
